theory Spec2Isabelle
  imports Main "HOL-Library.Sublist"
begin

section \<open>Joke model\<close>

text \<open>
  \<^verbatim>\<open>struct Joke { string setup; string punchline; };\<close>
  The catalog \<^verbatim>\<open>static vector<Joke> jokes\<close> is filled once at start-up and only read
  afterwards; every function below that reads it takes it as the argument \<open>jokes\<close>.
  The fields carry the prefix \<open>joke_\<close> because their bare names are not available as
  identifiers.
\<close>

record Joke =
  joke_setup :: string
  joke_punchline :: string

section \<open>Per-client session\<close>

text \<open>
  \<^verbatim>\<open>struct ClientSession { int fd; set<size_t> told_jokes; mt19937 rng; sockaddr_in client_addr; };\<close>

  The connected socket \<open>fd\<close> is represented by what can be observed through it:
  \<^item> \<open>inp\<close>: the bytes the peer will still deliver; when they are used up the next
    \<^verbatim>\<open>recv\<close> returns a value \<open>\<le> 0\<close> (peer shutdown or error);
  \<^item> \<open>sendok\<close>: the outcomes of the coming calls of \<open>send_line\<close>, in order (\<open>False\<close>: the
    call returns \<^verbatim>\<open>false\<close>); once the list is used up every later call succeeds;
  \<^item> \<open>events\<close>: the history of the session, oldest first. \<open>Sent l\<close> records a line
    handed over completely by \<open>send_line\<close> (with its terminator), \<open>Selected i\<close> the
    selection of joke \<open>i\<close> together with its insertion into \<open>told_jokes\<close>,
    \<open>Restarted\<close> the recursive call of \<open>play_joke\<close>, and \<open>Closed\<close> the
    \<^verbatim>\<open>close(fd)\<close> at the end of \<open>handle_client\<close>.

  \<open>told_jokes\<close> is the \<^verbatim>\<open>set<size_t>\<close> of indices (indices stay below the catalog size, so
  \<open>nat\<close> loses nothing). \<open>rng\<close> stands for the seeded \<^verbatim>\<open>mt19937\<close>: the raw draws it will
  produce, in order. \<open>client_addr\<close> is used for logging only and is left out.
\<close>

datatype event = Sent string | Selected nat | Restarted | Closed

record ClientSession =
  inp :: string
  sendok :: "bool list"
  told_jokes :: "nat set"
  rng :: "nat list"
  events :: "event list"

section \<open>I/O utilities\<close>

definition CR :: char where "CR = CHR 0x0D"
definition LF :: char where "LF = CHR 0x0A"

text \<open>
  \<open>send_line\<close>: \<^verbatim>\<open>string out = s; if (out.empty() || out.back() != '\n') out.push_back('\n');\<close>
  followed by the loop that pushes all of \<open>out\<close> through \<^verbatim>\<open>send\<close>. \<open>wire\<close> is the value
  of \<open>out\<close>. The loop is taken as one step whose outcome comes from \<open>sendok\<close>; a line
  is recorded as \<open>Sent\<close> only when the call returns \<^verbatim>\<open>true\<close>.
\<close>

definition wire :: "string \<Rightarrow> string" where
  "wire s = (if s = [] \<or> last s \<noteq> LF then s @ [LF] else s)"

definition send_line :: "ClientSession \<Rightarrow> string \<Rightarrow> bool \<times> ClientSession" where
  "send_line s l =
     (case sendok s of
        [] \<Rightarrow> (True, s\<lparr>events := events s @ [Sent (wire l)]\<rparr>)
      | ok # oks \<Rightarrow>
          (if ok then (True, s\<lparr>sendok := oks, events := events s @ [Sent (wire l)]\<rparr>)
           else (False, s\<lparr>sendok := oks\<rparr>)))"

text \<open>
  \<open>recv_line\<close>: the \<^verbatim>\<open>while (true)\<close> loop reading one byte per iteration.
  \<open>recv_loop line bytes\<close> is the loop with \<open>line\<close> the string accumulated so far and
  \<open>bytes\<close> the bytes still to come; it returns the result of \<open>recv_line\<close>, the value
  of \<open>line\<close> on return and the bytes left unread.
  \<^verbatim>\<open>
  if (n <= 0) return false;
  if (ch == '\r') continue;
  if (ch == '\n') break;
  line.push_back(ch);
  if (line.size() > 4096) break;
  \<close>
\<close>

fun recv_loop :: "string \<Rightarrow> string \<Rightarrow> bool \<times> string \<times> string" where
  "recv_loop line [] = (False, line, [])"
| "recv_loop line (ch # rest) =
     (if ch = CR then recv_loop line rest
      else if ch = LF then (True, line, rest)
      else if length (line @ [ch]) > 4096 then (True, line @ [ch], rest)
      else recv_loop (line @ [ch]) rest)"

definition recv_line :: "ClientSession \<Rightarrow> bool \<times> string \<times> ClientSession" where
  "recv_line s =
     (case recv_loop [] (inp s) of (ok, line, rest) \<Rightarrow> (ok, line, s\<lparr>inp := rest\<rparr>))"

text \<open>
  \<open>trim\<close>:
  \<^verbatim>\<open>
  size_t i = s.find_first_not_of(" \t\r\n");
  if (i == string::npos) return "";
  size_t j = s.find_last_not_of(" \t\r\n");
  return s.substr(i, j - i + 1);
  \<close>
  \<^verbatim>\<open>npos\<close> is \<open>None\<close>. When the first search succeeds so does the second (lemma
  \<open>find_last_not_of_Some\<close> below), so the branch for a failing second search is never
  taken.
\<close>

definition whitespace :: string where
  "whitespace = [CHR '' '', CHR 0x09, CHR 0x0D, CHR 0x0A]"

fun find_first_not_of :: "string \<Rightarrow> string \<Rightarrow> nat option" where
  "find_first_not_of [] cs = None"
| "find_first_not_of (c # s) cs =
     (if c \<in> set cs then map_option Suc (find_first_not_of s cs) else Some 0)"

definition find_last_not_of :: "string \<Rightarrow> string \<Rightarrow> nat option" where
  "find_last_not_of s cs =
     (case find_first_not_of (rev s) cs of
        None \<Rightarrow> None
      | Some k \<Rightarrow> Some (length s - 1 - k))"

definition substr :: "string \<Rightarrow> nat \<Rightarrow> nat \<Rightarrow> string" where
  "substr s pos n = take n (drop pos s)"

definition trim :: "string \<Rightarrow> string" where
  "trim s =
     (case find_first_not_of s whitespace of
        None \<Rightarrow> []
      | Some i \<Rightarrow>
          (case find_last_not_of s whitespace of
             None \<Rightarrow> drop i s
           | Some j \<Rightarrow> substr s i (j - i + 1)))"

text \<open>
  \<open>lower\<close>: \<^verbatim>\<open>for (char& c : s) c = static_cast<char>(tolower(static_cast<unsigned char>(c)));\<close>
  The program never changes the locale, so \<^verbatim>\<open>tolower\<close> is that of the "C" locale: the
  codes 65 to 90 (\<open>A\<close> to \<open>Z\<close>) move up by 32, every other byte stays.
\<close>

definition tolower :: "char \<Rightarrow> char" where
  "tolower c =
     (let n = (of_char c :: nat) in if 65 \<le> n \<and> n \<le> 90 then char_of (n + 32) else c)"

definition lower :: "string \<Rightarrow> string" where
  "lower s = map tolower s"

definition iequals :: "string \<Rightarrow> string \<Rightarrow> bool" where
  "iequals a b = (lower (trim a) = lower (trim b))"

section \<open>Properties of the line transport\<close>

text \<open>
  \<open>payload l\<close> is what \<open>recv_line\<close> keeps of the bytes \<open>l\<close> of one line: every
  byte except the carriage returns.
\<close>

definition payload :: "string \<Rightarrow> string" where
  "payload l = filter (\<lambda>c. c \<noteq> CR) l"

lemma payload_simps [simp]:
  "payload [] = []"
  "payload (c # l) = (if c = CR then payload l else c # payload l)"
  "payload (xs @ ys) = payload xs @ payload ys"
  by (simp_all add: payload_def)

lemma CR_neq_LF [simp]: "CR \<noteq> LF" "LF \<noteq> CR"
  by (simp_all add: CR_def LF_def)

lemma recv_loop_shorter:
  "recv_loop line s = (True, l, rest) \<Longrightarrow> length rest < length s"
  by (induction s arbitrary: line) (auto split: if_splits intro: less_SucI)

lemma recv_loop_bound:
  "recv_loop acc s = (True, line, rest) \<Longrightarrow> length acc \<le> 4096 \<Longrightarrow>
     length line \<le> 4097 \<and> (CR \<notin> set acc \<longrightarrow> CR \<notin> set line) \<and>
     (LF \<notin> set acc \<longrightarrow> LF \<notin> set line)"
proof (induction s arbitrary: acc)
  case Nil
  then show ?case by simp
next
  case (Cons ch s)
  show ?case
  proof (cases "ch = CR \<or> ch = LF \<or> length acc = 4096")
    case True
    with Cons.prems show ?thesis
      using Cons.IH [of acc] by (auto split: if_splits)
  next
    case False
    with Cons.prems have "recv_loop (acc @ [ch]) s = (True, line, rest)" "length (acc @ [ch]) \<le> 4096"
      by (auto split: if_splits)
    from Cons.IH [OF this] False show ?thesis by auto
  qed
qed

lemma recv_loop_complete:
  "LF \<notin> set l \<Longrightarrow> length acc + length (payload l) \<le> 4096 \<Longrightarrow>
     recv_loop acc (l @ LF # rest) = (True, acc @ payload l, rest)"
  by (induction l arbitrary: acc) (auto split: if_splits)

lemma recv_loop_eof:
  "LF \<notin> set l \<Longrightarrow> length acc + length (payload l) \<le> 4096 \<Longrightarrow>
     recv_loop acc l = (False, acc @ payload l, [])"
  by (induction l arbitrary: acc) (auto split: if_splits)

lemma recv_loop_truncates:
  "LF \<notin> set l \<Longrightarrow> length acc \<le> 4096 \<Longrightarrow> 4096 < length acc + length (payload l) \<Longrightarrow>
     \<exists>pre post. l = pre @ post \<and> length acc + length (payload pre) = 4097 \<and>
        recv_loop acc (l @ t) = (True, acc @ payload pre, post @ t)"
proof (induction l arbitrary: acc)
  case Nil
  then show ?case by simp
next
  case (Cons c l)
  show ?case
  proof (cases "c = CR")
    case True
    with Cons.prems have "LF \<notin> set l" "length acc \<le> 4096" "4096 < length acc + length (payload l)"
      by simp_all
    from Cons.IH [OF this] obtain pre post where p: "l = pre @ post"
      "length acc + length (payload pre) = 4097"
      "recv_loop acc (l @ t) = (True, acc @ payload pre, post @ t)"
      by blast
    show ?thesis
      using True p by (intro exI [of _ "c # pre"] exI [of _ post]) simp
  next
    case False
    note notCR = False
    from Cons.prems have notLF: "c \<noteq> LF" by auto
    show ?thesis
    proof (cases "length acc = 4096")
      case True
      show ?thesis
        using True notCR notLF by (intro exI [of _ "[c]"] exI [of _ l]) simp
    next
      case False
      with Cons.prems notCR have "LF \<notin> set l" "length (acc @ [c]) \<le> 4096"
        "4096 < length (acc @ [c]) + length (payload l)"
        by simp_all
      from Cons.IH [OF this] obtain pre post where p: "l = pre @ post"
        "length (acc @ [c]) + length (payload pre) = 4097"
        "recv_loop (acc @ [c]) (l @ t) = (True, (acc @ [c]) @ payload pre, post @ t)"
        by blast
      show ?thesis
        using False Cons.prems(2) notCR notLF p
        by (intro exI [of _ "c # pre"] exI [of _ post]) simp
    qed
  qed
qed

lemma recv_loop_line_truncated:
  assumes "LF \<notin> set l" and "4096 < length (payload l)"
  shows "\<exists>pre post. l = pre @ post \<and> payload pre = take 4097 (payload l) \<and>
           payload post = drop 4097 (payload l) \<and>
           recv_loop [] (l @ t) = (True, take 4097 (payload l), post @ t)"
proof -
  from recv_loop_truncates [OF assms(1), of "[]" t] assms(2)
  obtain pre post where l: "l = pre @ post" and n: "length (payload pre) = 4097"
    and r: "recv_loop [] (l @ t) = (True, payload pre, post @ t)"
    by auto
  have pl: "payload l = payload pre @ payload post"
    by (simp add: l)
  have tk: "take 4097 (payload l) = payload pre"
    by (simp add: pl n)
  have dr: "drop 4097 (payload l) = payload post"
    by (simp add: pl n)
  show ?thesis
  proof (intro exI conjI)
    show "l = pre @ post" by (fact l)
    show "payload pre = take 4097 (payload l)" by (simp only: tk)
    show "payload post = drop 4097 (payload l)" by (simp only: dr)
    show "recv_loop [] (l @ t) = (True, take 4097 (payload l), post @ t)"
      by (simp only: tk r)
  qed
qed

lemma recv_loop_plain:
  "LF \<notin> set l \<Longrightarrow> CR \<notin> set l \<Longrightarrow> length acc \<le> 4096 \<Longrightarrow> 4096 < length acc + length l \<Longrightarrow>
     recv_loop acc (l @ t) = (True, acc @ take (4097 - length acc) l, drop (4097 - length acc) l @ t)"
proof (induction l arbitrary: acc)
  case Nil
  then show ?case by simp
next
  case (Cons c l)
  show ?case
  proof (cases "length acc = 4096")
    case True
    with Cons.prems show ?thesis by auto
  next
    case False
    with Cons.prems have "LF \<notin> set l" "CR \<notin> set l" "length (acc @ [c]) \<le> 4096"
      "4096 < length (acc @ [c]) + length l"
      by simp_all
    from Cons.IH [OF this] have "recv_loop (acc @ [c]) (l @ t) =
        (True, (acc @ [c]) @ take (4097 - length (acc @ [c])) l, drop (4097 - length (acc @ [c])) l @ t)" .
    moreover have "4097 - length acc = Suc (4097 - length (acc @ [c]))"
      using Cons.prems(3) by simp
    ultimately show ?thesis
      using False Cons.prems by auto
  qed
qed


lemma payload_replicate [simp]: "payload (replicate n CHR ''a'') = replicate n CHR ''a''"
  by (simp add: payload_def CR_def)

lemma LF_notin_replicate [simp]: "LF \<notin> set (replicate n CHR ''a'')"
  by (simp add: LF_def)

lemma CR_notin_replicate [simp]: "CR \<notin> set (replicate n CHR ''a'')"
  by (simp add: CR_def)

text \<open>A fresh session whose peer delivers the given bytes and then shuts down.\<close>

definition line_session :: "string \<Rightarrow> ClientSession" where
  "line_session bytes = \<lparr>inp = bytes, sendok = [], told_jokes = {}, rng = [], events = []\<rparr>"

text \<open>
  \<^bold>\<open>C8.\<close> A successful \<open>recv_line\<close> returns a line of bounded length without carriage
  returns (and without the terminator): at most 4097 characters. Writing \<open>f\<close> for the
  payload of the bytes before the first line feed: when \<open>f\<close> has more than 4096
  characters the call succeeds with the first 4097 of them (the line is cut and treated as
  complete); when \<open>f\<close> has at most 4096 characters and the line feed is there, the
  call succeeds with \<open>f\<close> and consumes the line feed; and when the stream ends first
  (a read of length zero, or an error) the call reports failure and never a line.
\<close>

theorem recv_line_bounded:
  assumes "recv_line s = (ok, line, s')"
  shows "(ok \<longrightarrow> length line \<le> 4097 \<and> CR \<notin> set line \<and> LF \<notin> set line) \<and>
         (4096 < length (payload (takeWhile (\<lambda>c. c \<noteq> LF) (inp s))) \<longrightarrow>
            ok \<and> line = take 4097 (payload (takeWhile (\<lambda>c. c \<noteq> LF) (inp s)))) \<and>
         (length (payload (takeWhile (\<lambda>c. c \<noteq> LF) (inp s))) \<le> 4096 \<and> LF \<in> set (inp s) \<longrightarrow>
            ok \<and> line = payload (takeWhile (\<lambda>c. c \<noteq> LF) (inp s)) \<and>
            inp s' = tl (dropWhile (\<lambda>c. c \<noteq> LF) (inp s))) \<and>
         (length (payload (takeWhile (\<lambda>c. c \<noteq> LF) (inp s))) \<le> 4096 \<and> LF \<notin> set (inp s) \<longrightarrow>
            \<not> ok \<and> inp s' = [])"
proof -
  define p where "p = takeWhile (\<lambda>c. c \<noteq> LF) (inp s)"
  define d where "d = dropWhile (\<lambda>c. c \<noteq> LF) (inp s)"
  have split: "inp s = p @ d" by (simp add: p_def d_def)
  have p: "LF \<notin> set p" by (auto simp: p_def dest: set_takeWhileD)
  from assms have run: "recv_loop [] (inp s) = (ok, line, inp s')"
    by (auto simp: recv_line_def split: prod.splits)
  have bound: "ok \<longrightarrow> length line \<le> 4097 \<and> CR \<notin> set line \<and> LF \<notin> set line"
    using recv_loop_bound [of "[]" "inp s" line "inp s'"] run by auto
  have long: "ok \<and> line = take 4097 (payload p)" if "4096 < length (payload p)"
  proof -
    from recv_loop_line_truncated [OF p that, of d]
    obtain post where "recv_loop [] (p @ d) = (True, take 4097 (payload p), post @ d)"
      by blast
    with run split show ?thesis by simp
  qed
  have full: "ok \<and> line = payload p \<and> inp s' = tl d"
    if "length (payload p) \<le> 4096" "LF \<in> set (inp s)"
  proof -
    from that(2) have "d \<noteq> []" by (auto simp: d_def)
    moreover from this have "hd d = LF"
      using hd_dropWhile [of "\<lambda>c. c \<noteq> LF" "inp s"] by (simp add: d_def)
    ultimately obtain rest where d: "d = LF # rest" by (cases d) auto
    from recv_loop_complete [OF p, of "[]" rest] that(1)
    have "recv_loop [] (p @ LF # rest) = (True, payload p, rest)" by simp
    with run split d show ?thesis by simp
  qed
  have eof: "\<not> ok \<and> inp s' = []"
    if "length (payload p) \<le> 4096" "LF \<notin> set (inp s)"
  proof -
    from that(2) have "p = inp s" by (auto simp: p_def)
    with recv_loop_eof [of "inp s" "[]"] that run show ?thesis by simp
  qed
  show ?thesis
    unfolding p_def [symmetric] d_def [symmetric]
    using bound long full eof by (intro conjI impI) simp_all
qed

theorem recv_line_bounded_witness:
  "recv_line (line_session (''ab'' @ [CR, LF] @ ''cd'')) = (True, ''ab'', line_session ''cd'') \<and>
   length ''ab'' \<le> (4097 :: nat) \<and>
   \<not> fst (recv_line (line_session ''ab''))"
proof -
  have h: "recv_line (line_session (''ab'' @ [CR, LF] @ ''cd'')) = (True, ''ab'', line_session ''cd'')"
    by (simp add: recv_line_def line_session_def CR_def LF_def)
  obtain ok line s' where g: "recv_line (line_session ''ab'') = (ok, line, s')"
    by (cases "recv_line (line_session ''ab'')")
  have "LF \<notin> set ''ab''" by (simp add: LF_def)
  with recv_line_bounded [OF g] have "\<not> ok"
    by (simp add: line_session_def)
  with h g recv_line_bounded [OF h] show ?thesis by simp
qed

lemma recv_loop_replicate:
  "recv_loop [] (replicate (4097 + k) CHR ''a'' @ t) =
     (True, replicate 4097 CHR ''a'', replicate k CHR ''a'' @ t)"
proof -
  have "recv_loop [] (replicate (4097 + k) CHR ''a'' @ t) =
      (True, [] @ take (4097 - length ([] :: string)) (replicate (4097 + k) CHR ''a''),
       drop (4097 - length ([] :: string)) (replicate (4097 + k) CHR ''a'') @ t)"
    by (rule recv_loop_plain) (simp_all add: LF_def CR_def)
  then show ?thesis by simp
qed

text \<open>
  \<^bold>\<open>C10.\<close> When the peer sends one line whose payload has more than 4096 characters,
  \<open>recv_line\<close> returns the first 4097 of them as a complete line and leaves the rest of
  that line (\<open>post\<close>, with its line feed) unread. The next \<open>recv_line\<close> on the
  connection then returns the payload of that remainder when it has at most 4096
  characters; when the remainder is longer the cap applies again and only its first 4097
  characters are returned.
\<close>

theorem long_line_remainder:
  assumes "inp s = l @ LF # rest" and "LF \<notin> set l" and "4096 < length (payload l)"
  shows "\<exists>pre post. l = pre @ post \<and>
           payload pre = take 4097 (payload l) \<and> payload post = drop 4097 (payload l) \<and>
           recv_line s = (True, take 4097 (payload l), s\<lparr>inp := post @ LF # rest\<rparr>) \<and>
           (length (payload post) \<le> 4096 \<longrightarrow>
              recv_line (s\<lparr>inp := post @ LF # rest\<rparr>) = (True, payload post, s\<lparr>inp := rest\<rparr>)) \<and>
           (4096 < length (payload post) \<longrightarrow>
              fst (recv_line (s\<lparr>inp := post @ LF # rest\<rparr>)) \<and>
              fst (snd (recv_line (s\<lparr>inp := post @ LF # rest\<rparr>))) = take 4097 (payload post))"
proof -
  from recv_loop_line_truncated [OF assms(2,3), of "LF # rest"]
  obtain pre post where l: "l = pre @ post"
    and pre: "payload pre = take 4097 (payload l)"
    and post: "payload post = drop 4097 (payload l)"
    and r: "recv_loop [] (l @ LF # rest) = (True, take 4097 (payload l), post @ LF # rest)"
    by blast
  have first: "recv_line s = (True, take 4097 (payload l), s\<lparr>inp := post @ LF # rest\<rparr>)"
    by (simp add: recv_line_def assms(1) r)
  have lfpost: "LF \<notin> set post"
    using assms(2) by (simp add: l)
  have short: "recv_line (s\<lparr>inp := post @ LF # rest\<rparr>) = (True, payload post, s\<lparr>inp := rest\<rparr>)"
    if "length (payload post) \<le> 4096"
    using recv_loop_complete [OF lfpost, of "[]" rest] that by (simp add: recv_line_def)
  have again: "fst (recv_line (s\<lparr>inp := post @ LF # rest\<rparr>)) \<and>
      fst (snd (recv_line (s\<lparr>inp := post @ LF # rest\<rparr>))) = take 4097 (payload post)"
    if "4096 < length (payload post)"
  proof -
    from recv_loop_line_truncated [OF lfpost that, of "LF # rest"]
    obtain r2 where "recv_loop [] (post @ LF # rest) = (True, take 4097 (payload post), r2 @ LF # rest)"
      by blast
    then show ?thesis by (simp add: recv_line_def)
  qed
  show ?thesis
  proof (intro exI conjI)
    show "l = pre @ post" by (fact l)
    show "payload pre = take 4097 (payload l)" by (fact pre)
    show "payload post = drop 4097 (payload l)" by (fact post)
    show "recv_line s = (True, take 4097 (payload l), s\<lparr>inp := post @ LF # rest\<rparr>)"
      by (fact first)
    show "length (payload post) \<le> 4096 \<longrightarrow>
        recv_line (s\<lparr>inp := post @ LF # rest\<rparr>) = (True, payload post, s\<lparr>inp := rest\<rparr>)"
      using short by (intro impI)
    show "4096 < length (payload post) \<longrightarrow>
        fst (recv_line (s\<lparr>inp := post @ LF # rest\<rparr>)) \<and>
        fst (snd (recv_line (s\<lparr>inp := post @ LF # rest\<rparr>))) = take 4097 (payload post)"
      using again by (intro impI)
  qed
qed

theorem long_line_remainder_witness:
  "inp (line_session (replicate 4100 CHR ''a'' @ [LF])) = replicate 4100 CHR ''a'' @ LF # [] \<and>
   LF \<notin> set (replicate 4100 CHR ''a'') \<and>
   4096 < length (payload (replicate 4100 CHR ''a'')) \<and>
   (\<exists>post. recv_line (line_session (replicate 4100 CHR ''a'' @ [LF])) =
       (True, take 4097 (payload (replicate 4100 CHR ''a'')),
        (line_session (replicate 4100 CHR ''a'' @ [LF]))\<lparr>inp := post @ LF # []\<rparr>))"
proof -
  have h1: "inp (line_session (replicate 4100 CHR ''a'' @ [LF])) = replicate 4100 CHR ''a'' @ LF # []"
    by (simp add: line_session_def)
  have h2: "LF \<notin> set (replicate 4100 CHR ''a'')"
    by (rule LF_notin_replicate)
  have h3: "4096 < length (payload (replicate 4100 CHR ''a''))"
    by (simp only: payload_replicate length_replicate)
  from long_line_remainder [OF h1 h2 h3]
  obtain post where "recv_line (line_session (replicate 4100 CHR ''a'' @ [LF])) =
       (True, take 4097 (payload (replicate 4100 CHR ''a'')),
        (line_session (replicate 4100 CHR ''a'' @ [LF]))\<lparr>inp := post @ LF # []\<rparr>)"
    by blast
  then have "\<exists>post. recv_line (line_session (replicate 4100 CHR ''a'' @ [LF])) =
       (True, take 4097 (payload (replicate 4100 CHR ''a'')),
        (line_session (replicate 4100 CHR ''a'' @ [LF]))\<lparr>inp := post @ LF # []\<rparr>)"
    by (rule exI)
  with h1 h2 h3 show ?thesis by (intro conjI)
qed

text \<open>
  A line of 8195 characters: the first read returns 4097 of them; the 4098 left over are not
  the next line and not a prefix of it, since the second read stops at 4097 characters again.
\<close>

theorem long_line_remainder_counterexample:
  "recv_line (line_session (replicate 8195 CHR ''a'' @ [LF])) =
     (True, replicate 4097 CHR ''a'', line_session (replicate 4098 CHR ''a'' @ [LF])) \<and>
   recv_line (line_session (replicate 4098 CHR ''a'' @ [LF])) =
     (True, replicate 4097 CHR ''a'', line_session (replicate 1 CHR ''a'' @ [LF])) \<and>
   replicate 4097 CHR ''a'' \<noteq> replicate 4098 CHR ''a'' \<and>
   \<not> prefix (replicate 4098 CHR ''a'') (replicate 4097 CHR ''a'')"
proof -
  have n1: "(8195 :: nat) = 4097 + 4098" and n2: "(4098 :: nat) = 4097 + 1"
    by simp_all
  have a: "recv_loop [] (replicate 8195 CHR ''a'' @ [LF]) =
      (True, replicate 4097 CHR ''a'', replicate 4098 CHR ''a'' @ [LF])"
    unfolding n1 by (rule recv_loop_replicate)
  have b: "recv_loop [] (replicate 4098 CHR ''a'' @ [LF]) =
      (True, replicate 4097 CHR ''a'', replicate 1 CHR ''a'' @ [LF])"
    using recv_loop_replicate [of 1 "[LF]"] by (simp only: n2 [symmetric])
  have c: "length (replicate 4097 CHR ''a'') \<noteq> length (replicate 4098 CHR ''a'')"
    by (simp only: length_replicate)
  then have d: "replicate 4097 CHR ''a'' \<noteq> replicate 4098 CHR ''a''"
    by (rule contrapos_nn) (erule arg_cong)
  have e: "\<not> prefix (replicate 4098 CHR ''a'') (replicate 4097 CHR ''a'')"
  proof
    assume "prefix (replicate 4098 CHR ''a'') (replicate 4097 CHR ''a'')"
    then have "length (replicate 4098 CHR ''a'') \<le> length (replicate 4097 CHR ''a'')"
      by (rule prefix_length_le)
    then show False by (simp only: length_replicate)
  qed
  have r1: "recv_line (line_session (replicate 8195 CHR ''a'' @ [LF])) =
     (True, replicate 4097 CHR ''a'', line_session (replicate 4098 CHR ''a'' @ [LF]))"
    unfolding recv_line_def line_session_def by (simp only: ClientSession.simps a prod.case)
  have r2: "recv_line (line_session (replicate 4098 CHR ''a'' @ [LF])) =
     (True, replicate 4097 CHR ''a'', line_session (replicate 1 CHR ''a'' @ [LF]))"
    unfolding recv_line_def line_session_def by (simp only: ClientSession.simps b prod.case)
  from r1 r2 d e show ?thesis by (intro conjI)
qed

section \<open>Properties of the reply comparison\<close>

text \<open>
  The comparison as the specification words it, written without any of the definitions
  above: remove leading and trailing whitespace, map every character to lower case, and
  compare for equality. Whitespace is space, tab, carriage return and line feed (the
  characters the protocol can pad a line with; vertical tab and form feed are ordinary
  characters here). Lower case is given by the table of the 26 letters; every other
  character is its own lower case.
\<close>

definition is_space :: "char \<Rightarrow> bool" where
  "is_space c = (c = CHR '' '' \<or> c = CHR 0x09 \<or> c = CHR 0x0D \<or> c = CHR 0x0A)"

definition spec_trim :: "string \<Rightarrow> string" where
  "spec_trim s = rev (dropWhile is_space (rev (dropWhile is_space s)))"

definition spec_lower_char :: "char \<Rightarrow> char" where
  "spec_lower_char c =
     (case map_of (zip ''ABCDEFGHIJKLMNOPQRSTUVWXYZ'' ''abcdefghijklmnopqrstuvwxyz'') c of
        None \<Rightarrow> c
      | Some l \<Rightarrow> l)"

definition spec_normalise :: "string \<Rightarrow> string" where
  "spec_normalise s = map spec_lower_char (spec_trim s)"

lemma is_space_iff: "is_space c \<longleftrightarrow> c \<in> set whitespace"
  by (auto simp: is_space_def whitespace_def)

lemma tolower_all: "\<forall>c. tolower c = spec_lower_char c"
  by code_simp

lemma tolower_spec: "tolower = spec_lower_char"
  using tolower_all by (simp add: fun_eq_iff)

lemma find_first_not_of_None:
  "find_first_not_of s cs = None \<longleftrightarrow> set s \<subseteq> set cs"
  by (induction s) auto

lemma find_last_not_of_Some:
  assumes "find_first_not_of s cs = Some i"
  shows "\<exists>j. find_last_not_of s cs = Some j"
proof -
  from assms have "\<not> set s \<subseteq> set cs"
    using find_first_not_of_None [of s cs] by simp
  then have "find_first_not_of (rev s) cs \<noteq> None"
    using find_first_not_of_None [of "rev s" cs] by simp
  then show ?thesis
    by (auto simp: find_last_not_of_def)
qed

lemma find_first_not_of_at:
  "set a \<subseteq> set cs \<Longrightarrow> x \<notin> set cs \<Longrightarrow> find_first_not_of (a @ x # t) cs = Some (length a)"
  by (induction a) auto

lemma find_last_not_of_at:
  assumes "set b \<subseteq> set cs" and "y \<notin> set cs"
  shows "find_last_not_of (w @ y # b) cs = Some (length w)"
proof -
  have "find_first_not_of (rev b @ y # rev w) cs = Some (length b)"
    using assms by (simp add: find_first_not_of_at)
  then show ?thesis
    by (simp add: find_last_not_of_def)
qed

lemma strip_decomposition:
  assumes "\<not> set s \<subseteq> set cs"
  shows "\<exists>a m b. s = a @ m @ b \<and> set a \<subseteq> set cs \<and> set b \<subseteq> set cs \<and>
           m \<noteq> [] \<and> hd m \<notin> set cs \<and> last m \<notin> set cs"
proof -
  let ?P = "\<lambda>c. c \<in> set cs"
  define a where "a = takeWhile ?P s"
  define t where "t = dropWhile ?P s"
  define b where "b = rev (takeWhile ?P (rev t))"
  define m where "m = rev (dropWhile ?P (rev t))"
  have s: "s = a @ t" by (simp add: a_def t_def)
  have a: "set a \<subseteq> set cs" by (auto simp: a_def dest: set_takeWhileD)
  have b: "set b \<subseteq> set cs" by (auto simp: b_def dest: set_takeWhileD)
  have tne: "t \<noteq> []" using assms by (auto simp: t_def)
  have hdt: "hd t \<notin> set cs" using tne hd_dropWhile [of ?P s] by (simp add: t_def)
  have t: "t = m @ b"
    unfolding m_def b_def by (metis rev_append rev_rev_ident takeWhile_dropWhile_id)
  have "hd t \<in> set (rev t)" using tne by simp
  with hdt have dne: "dropWhile ?P (rev t) \<noteq> []"
    by auto
  then have mne: "m \<noteq> []" by (simp add: m_def)
  have "last m = hd (dropWhile ?P (rev t))"
    using dne by (simp add: m_def last_rev)
  then have lm: "last m \<notin> set cs"
    using hd_dropWhile [OF dne] by simp
  have "hd m = hd t" using t mne by simp
  with hdt have hm: "hd m \<notin> set cs" by simp
  from s t a b mne hm lm show ?thesis by blast
qed

lemma trim_decomposed:
  assumes "set a \<subseteq> set whitespace" "set b \<subseteq> set whitespace" "m \<noteq> []"
    "hd m \<notin> set whitespace" "last m \<notin> set whitespace"
  shows "trim (a @ m @ b) = m" and "spec_trim (a @ m @ b) = m"
proof -
  obtain x t where xt: "m = x # t" using assms(3) by (cases m) auto
  obtain w y where wy: "m = w @ [y]" using assms(3) by (cases m rule: rev_cases) auto
  have x: "x \<notin> set whitespace" using assms(4) xt by simp
  have y: "y \<notin> set whitespace" using assms(5) wy by simp
  have i: "find_first_not_of (a @ m @ b) whitespace = Some (length a)"
    using find_first_not_of_at [OF assms(1) x, of "t @ b"] xt by simp
  have j: "find_last_not_of (a @ m @ b) whitespace = Some (length a + length w)"
    using find_last_not_of_at [OF assms(2) y, of "a @ w"] wy by simp
  have "length w + 1 = length m" using wy by simp
  then show "trim (a @ m @ b) = m"
    by (simp add: trim_def i j substr_def)
  have P: "\<And>c. is_space c \<longleftrightarrow> c \<in> set whitespace" by (simp add: is_space_iff)
  have "dropWhile is_space (a @ m @ b) = m @ b"
    using assms(1) x xt by (subst dropWhile_append2) (auto simp: P)
  moreover have "dropWhile is_space (rev b @ rev m) = rev m"
    using assms(2) y wy by (subst dropWhile_append2) (auto simp: P)
  ultimately show "spec_trim (a @ m @ b) = m"
    by (simp add: spec_trim_def)
qed

lemma trim_eq_spec_trim: "trim s = spec_trim s"
proof (cases "set s \<subseteq> set whitespace")
  case True
  then have "find_first_not_of s whitespace = None"
    by (simp add: find_first_not_of_None)
  moreover from True have d: "dropWhile is_space s = []"
    by (simp add: is_space_iff subset_iff)
  ultimately show ?thesis
    by (simp add: trim_def spec_trim_def d)
next
  case False
  from strip_decomposition [OF False] obtain a m b where
    "s = a @ m @ b" "set a \<subseteq> set whitespace" "set b \<subseteq> set whitespace"
    "m \<noteq> []" "hd m \<notin> set whitespace" "last m \<notin> set whitespace"
    by blast
  then show ?thesis
    using trim_decomposed [of a b m] by simp
qed

lemma tolower_space: "tolower c \<in> set whitespace \<longleftrightarrow> c \<in> set whitespace"
proof -
  have w: "\<And>d. d \<in> set whitespace \<longleftrightarrow> (of_char d :: nat) \<in> {32, 9, 13, 10}"
  proof -
    fix d
    have "d \<in> set whitespace \<longleftrightarrow> (of_char d :: nat) \<in> of_char ` set whitespace"
      by (metis image_iff of_char_eq_iff)
    then show "d \<in> set whitespace \<longleftrightarrow> (of_char d :: nat) \<in> {32, 9, 13, 10}"
      by (simp add: whitespace_def)
  qed
  have "(of_char c :: nat) < 256" by simp
  show ?thesis
    unfolding w by (auto simp: tolower_def Let_def)
qed

lemma lower_trim_commute: "lower (trim s) = trim (lower s)"
proof -
  have "is_space \<circ> tolower = is_space"
    by (simp add: fun_eq_iff is_space_iff tolower_space)
  then have dw: "\<And>xs. dropWhile is_space (map tolower xs) = map tolower (dropWhile is_space xs)"
    by (simp add: dropWhile_map)
  have "spec_trim (map tolower s) = rev (dropWhile is_space (rev (map tolower (dropWhile is_space s))))"
    by (simp only: spec_trim_def dw)
  also have "\<dots> = rev (dropWhile is_space (map tolower (rev (dropWhile is_space s))))"
    by (simp only: rev_map)
  also have "\<dots> = map tolower (spec_trim s)"
    by (simp only: dw rev_map spec_trim_def)
  finally show ?thesis
    by (simp only: trim_eq_spec_trim lower_def)
qed


lemma trim_padding:
  assumes "set w1 \<subseteq> set whitespace" and "set w2 \<subseteq> set whitespace"
  shows "trim (w1 @ a @ w2) = trim a"
proof (cases "set a \<subseteq> set whitespace")
  case True
  with assms have "set (w1 @ a @ w2) \<subseteq> set whitespace" by simp
  then have "find_first_not_of (w1 @ a @ w2) whitespace = None"
    by (simp only: find_first_not_of_None)
  moreover from True have "find_first_not_of a whitespace = None"
    by (simp only: find_first_not_of_None)
  ultimately show ?thesis by (simp add: trim_def)
next
  case False
  from strip_decomposition [OF False] obtain a1 m b1 where d:
    "a = a1 @ m @ b1" "set a1 \<subseteq> set whitespace" "set b1 \<subseteq> set whitespace"
    "m \<noteq> []" "hd m \<notin> set whitespace" "last m \<notin> set whitespace"
    by blast
  have "trim ((w1 @ a1) @ m @ (b1 @ w2)) = m"
    using assms d by (intro trim_decomposed) simp_all
  moreover have "trim (a1 @ m @ b1) = m"
    using d by (intro trim_decomposed) simp_all
  ultimately show ?thesis by (simp add: d(1))
qed

text \<open>
  \<^bold>\<open>C7.\<close> \<open>iequals a b\<close> holds exactly when \<open>a\<close> and \<open>b\<close> are identical after
  removing leading and trailing whitespace and mapping every character to lower case,
  both as the specification words them (\<open>spec_normalise\<close>, which uses none of the
  program's functions). Hence padding a reply with whitespace at either end, or changing
  the case of its letters, never changes the verdict, and any other difference, were it a
  single character, is rejected.
\<close>

theorem iequals_exact_up_to_case_and_trim:
  "(iequals a b \<longleftrightarrow> spec_normalise a = spec_normalise b) \<and>
   (list_all is_space w1 \<and> list_all is_space w2 \<longrightarrow>
      iequals (w1 @ a @ w2) b = iequals a b) \<and>
   (map spec_lower_char a' = map spec_lower_char a \<longrightarrow> iequals a' b = iequals a b)"
proof (intro conjI impI)
  show "iequals a b \<longleftrightarrow> spec_normalise a = spec_normalise b"
    by (simp add: iequals_def spec_normalise_def lower_def trim_eq_spec_trim tolower_spec)
next
  assume "list_all is_space w1 \<and> list_all is_space w2"
  then have "set w1 \<subseteq> set whitespace" "set w2 \<subseteq> set whitespace"
    by (auto simp: list_all_iff is_space_iff)
  then show "iequals (w1 @ a @ w2) b = iequals a b"
    by (simp add: iequals_def trim_padding)
next
  assume "map spec_lower_char a' = map spec_lower_char a"
  then have "lower a' = lower a"
    by (simp add: lower_def tolower_spec)
  then show "iequals a' b = iequals a b"
    by (simp add: iequals_def lower_trim_commute)
qed

theorem iequals_exact_up_to_case_and_trim_witness:
  "list_all is_space ''  '' \<and> list_all is_space [CHR 0x09] \<and>
   map spec_lower_char ''WHO'S THERE?'' = map spec_lower_char ''Who's there?'' \<and>
   iequals (''  '' @ ''Who's there?'' @ [CHR 0x09]) ''Who's there?'' \<and>
   iequals ''WHO'S THERE?'' ''Who's there?'' \<and>
   \<not> iequals ''Who there?'' ''Who's there?'' \<and>
   \<not> iequals ''Who's there'' ''Who's there?'' \<and>
   \<not> iequals ''Whos there?'' ''Who's there?'' \<and>
   \<not> iequals ''Who's  there?'' ''Who's there?''"
proof -
  have h1: "list_all is_space ''  '' \<and> list_all is_space [CHR 0x09]"
    by (simp add: is_space_def)
  have h2: "map spec_lower_char ''WHO'S THERE?'' = map spec_lower_char ''Who's there?''"
    by (simp add: spec_lower_char_def)
  have e: "iequals ''Who's there?'' ''Who's there?''"
    by (simp add: iequals_def)
  have n1: "spec_normalise ''Who there?'' \<noteq> spec_normalise ''Who's there?''"
    by (simp add: spec_normalise_def spec_trim_def is_space_def spec_lower_char_def)
  have n2: "spec_normalise ''Who's there'' \<noteq> spec_normalise ''Who's there?''"
    by (simp add: spec_normalise_def spec_trim_def is_space_def spec_lower_char_def)
  have n3: "spec_normalise ''Whos there?'' \<noteq> spec_normalise ''Who's there?''"
    by (simp add: spec_normalise_def spec_trim_def is_space_def spec_lower_char_def)
  have n4: "spec_normalise ''Who's  there?'' \<noteq> spec_normalise ''Who's there?''"
    by (simp add: spec_normalise_def spec_trim_def is_space_def spec_lower_char_def)
  note t = iequals_exact_up_to_case_and_trim
  from t [of "''Who's there?''" "''Who's there?''" "''  ''" "[CHR 0x09]"] h1 e
  have a: "iequals (''  '' @ ''Who's there?'' @ [CHR 0x09]) ''Who's there?''" by blast
  from t [of "''Who's there?''" "''Who's there?''" _ _ "''WHO'S THERE?''"] h2 e
  have b: "iequals ''WHO'S THERE?'' ''Who's there?''" by blast
  from t [of "''Who there?''" "''Who's there?''"] n1
  have c1: "\<not> iequals ''Who there?'' ''Who's there?''" by blast
  from t [of "''Who's there''" "''Who's there?''"] n2
  have c2: "\<not> iequals ''Who's there'' ''Who's there?''" by blast
  from t [of "''Whos there?''" "''Who's there?''"] n3
  have c3: "\<not> iequals ''Whos there?'' ''Who's there?''" by blast
  from t [of "''Who's  there?''" "''Who's there?''"] n4
  have c4: "\<not> iequals ''Who's  there?'' ''Who's there?''" by blast
  from h1 h2 a b c1 c2 c3 c4 show ?thesis by (intro conjI) simp_all
qed

section \<open>Knock-knock logic\<close>

text \<open>The fixed lines of the protocol, as the string literals of the source.\<close>

definition expect1 :: string where
  "expect1 = ''Who's there?''"

definition knock_prompt :: string where
  "knock_prompt = ''Knock knock! <input>''"

definition no_more_jokes :: string where
  "no_more_jokes = ''I have no more jokes to tell.''"

definition supposed_to_say :: "string \<Rightarrow> string" where
  "supposed_to_say e = ''You are supposed to say, '' @ [CHR 0x22] @ e @ [CHR 0x22] @ ''. Let's try again.''"

text \<open>
  \<^verbatim>\<open>uniform_int_distribution<size_t> dist(0, avail.size() - 1); ... dist(session->rng)\<close>:
  \<open>dist n r\<close> draws an index below \<open>n\<close> from the generator \<open>r\<close> and returns it with
  the advanced generator. The only property of the distribution that is used is that the
  result lies in the range.
\<close>

definition dist :: "nat \<Rightarrow> nat list \<Rightarrow> nat \<times> nat list" where
  "dist n r = (case r of [] \<Rightarrow> (0, []) | x # xs \<Rightarrow> (x mod n, xs))"

lemma recv_line_shorter:
  "recv_line s = (True, l, s') \<Longrightarrow> length (inp s') < length (inp s)"
  by (auto simp: recv_line_def split: prod.splits dest: recv_loop_shorter)


lemma send_line_frame:
  "send_line s l = (b, s') \<Longrightarrow>
     inp s' = inp s \<and> told_jokes s' = told_jokes s \<and> rng s' = rng s"
  by (auto simp: send_line_def split: list.splits if_splits)

lemma recv_line_frame:
  "recv_line s = (b, l, s') \<Longrightarrow>
     told_jokes s' = told_jokes s \<and> rng s' = rng s \<and> events s' = events s \<and> sendok s' = sendok s"
  by (auto simp: recv_line_def split: prod.splits)

text \<open>
  The \<^verbatim>\<open>while (true)\<close> loop of step 1 of \<open>play_joke\<close>:
  \<^verbatim>\<open>
  if (!recv_line(session->fd, resp)) return false;
  if (iequals(resp, expect1)) break;
  if (!send_line(session->fd, "You are supposed to say, \"Who's there?\". Let's try again.")) return false;
  if (!send_line(session->fd, "Knock knock! <input>")) return false;
  \<close>
  The result \<open>False\<close> is the \<^verbatim>\<open>return false\<close> of \<open>play_joke\<close>, \<open>True\<close> the
  \<^verbatim>\<open>break\<close>. Each iteration consumes input, which is the termination argument.
\<close>

function knock_loop :: "ClientSession \<Rightarrow> bool \<times> ClientSession" where
  "knock_loop s =
     (case recv_line s of
        (False, resp, s1) \<Rightarrow> (False, s1)
      | (True, resp, s1) \<Rightarrow>
          if iequals resp expect1 then (True, s1)
          else (case send_line s1 (supposed_to_say expect1) of
                  (False, s2) \<Rightarrow> (False, s2)
                | (True, s2) \<Rightarrow>
                    (case send_line s2 knock_prompt of
                       (False, s3) \<Rightarrow> (False, s3)
                     | (True, s3) \<Rightarrow> knock_loop s3)))"
  by pat_completeness auto
termination
proof (relation "measure (\<lambda>s. length (inp s))", goal_cases)
  case 1
  show ?case by simp
next
  case (2 s x1 resp_s1 resp s1 x2 s2 x3 s3)
  then have r: "recv_line s = (True, resp, s1)"
    and a: "send_line s1 (supposed_to_say expect1) = (True, s2)"
    and b: "send_line s2 knock_prompt = (True, s3)"
    by simp_all
  from recv_line_shorter [OF r] send_line_frame [OF a] send_line_frame [OF b]
  show ?case by simp
qed

declare knock_loop.simps [simp del]

lemma knock_loop_frame:
  "knock_loop s = (b, s') \<Longrightarrow> told_jokes s' = told_jokes s \<and> rng s' = rng s"
proof (induction s arbitrary: b s' rule: knock_loop.induct)
  case (1 s)
  show ?case
  proof (cases "recv_line s")
    case (fields ok resp s1)
    note r = recv_line_frame [OF fields]
    show ?thesis
    proof (cases "ok \<and> \<not> iequals resp expect1")
      case False
      with "1.prems" fields r show ?thesis
        by (auto simp: knock_loop.simps [of s] split: if_splits bool.splits)
    next
      case True
      obtain ok2 s2 where a: "send_line s1 (supposed_to_say expect1) = (ok2, s2)"
        by (cases "send_line s1 (supposed_to_say expect1)")
      obtain ok3 s3 where b: "send_line s2 knock_prompt = (ok3, s3)"
        by (cases "send_line s2 knock_prompt")
      note fa = send_line_frame [OF a] and fb = send_line_frame [OF b]
      show ?thesis
      proof (cases "ok2 \<and> ok3")
        case False
        with "1.prems" fields True a b r fa fb show ?thesis
          by (auto simp: knock_loop.simps [of s] split: if_splits bool.splits)
      next
        case T2: True
        with "1.prems" fields True a b have "knock_loop s3 = (b, s')"
          by (simp add: knock_loop.simps [of s])
        from "1.IH" [OF fields [symmetric] _ refl _ a [symmetric] _ b [symmetric] _ this]
        have "told_jokes s' = told_jokes s3 \<and> rng s' = rng s3"
          using True T2 by simp
        with r fa fb show ?thesis by simp
      qed
    qed
  qed
qed

text \<open>
  \<open>avail\<close> is the vector built at the start of \<open>play_joke\<close>: the catalog indices that
  are not in \<open>told_jokes\<close>, in increasing order.
\<close>

definition avail :: "Joke list \<Rightarrow> ClientSession \<Rightarrow> nat list" where
  "avail jokes s = filter (\<lambda>i. i \<notin> told_jokes s) [0..<length jokes]"

lemma dist_less: "0 < n \<Longrightarrow> fst (dist n r) < n"
  by (simp add: dist_def split: list.splits)

lemma avail_insert_less:
  assumes "idx \<in> set (avail jokes s)" and "told_jokes s' = insert idx (told_jokes s)"
  shows "length (avail jokes s') < length (avail jokes s)"
proof -
  have "avail jokes s' = filter (\<lambda>i. i \<noteq> idx) (avail jokes s)"
    using assms(2) by (auto simp: avail_def intro: filter_cong)
  with assms(1) show ?thesis
    by (simp add: length_filter_less)
qed

text \<open>
  \<open>play_joke\<close>, statement by statement. Every \<^verbatim>\<open>return false\<close> after a failed send
  or receive is a branch \<open>(False, _)\<close>; the result of the send of the line
  "I have no more jokes to tell." is ignored, as in the source. The recursive call
  \<^verbatim>\<open>return play_joke(session)\<close> is recorded by the event \<open>Restarted\<close>. The function
  terminates because every call that recurses has first moved one index from \<open>avail\<close>
  into \<open>told_jokes\<close>.
\<close>

function play_joke :: "Joke list \<Rightarrow> ClientSession \<Rightarrow> bool \<times> ClientSession" where
  "play_joke jokes s =
     (let av = avail jokes s in
      if av = [] then (False, snd (send_line s no_more_jokes))
      else
        let (k, r) = dist (length av) (rng s);
            idx = av ! k;
            s0 = s\<lparr>told_jokes := insert idx (told_jokes s), rng := r,
                    events := events s @ [Selected idx]\<rparr>;
            jk = jokes ! idx;
            expect2 = joke_setup jk @ '' who?'';
            (ok1, s1) = send_line s0 knock_prompt
        in if \<not> ok1 then (False, s1)
        else
          let (ok2, s2) = knock_loop s1
          in if \<not> ok2 then (False, s2)
          else
            let (ok3, s3) = send_line s2 (joke_setup jk @ '' <input>'')
            in if \<not> ok3 then (False, s3)
            else
              let (ok4, resp, s4) = recv_line s3
              in if \<not> ok4 then (False, s4)
              else if \<not> iequals resp expect2 then
                (let (ok5, s5) = send_line s4 (supposed_to_say expect2)
                 in if \<not> ok5 then (False, s5)
                 else play_joke jokes (s5\<lparr>events := events s5 @ [Restarted]\<rparr>))
              else send_line s4 (joke_punchline jk))"
  by pat_completeness auto
termination
proof (relation "measure (\<lambda>(jokes, s). length (avail jokes s))", goal_cases)
  case 1
  show ?case by simp
next
  case (2 jokes s av kr k r idx s0 jk expect2 x1 ok1 s1 x2 ok2 s2 x3 ok3 s3 x4 ok4 y4 resp s4 x5 ok5 s5)
  then have a1: "send_line s0 knock_prompt = (True, s1)"
    and k: "knock_loop s1 = (True, s2)"
    and a3: "send_line s2 (joke_setup jk @ '' <input>'') = (True, s3)"
    and r: "recv_line s3 = (True, resp, s4)"
    and a5: "send_line s4 (supposed_to_say expect2) = (True, s5)"
    by simp_all
  from 2 have av: "av = avail jokes s" "av \<noteq> []"
    and kd: "dist (length av) (rng s) = (k, r)"
    and ix: "idx = av ! k"
    and s0: "told_jokes s0 = insert idx (told_jokes s)"
    by simp_all
  have "k < length av"
    using av(2) kd dist_less [of "length av" "rng s"] by simp
  then have "idx \<in> set (avail jokes s)"
    using ix av(1) by simp
  moreover have "told_jokes s5 = insert idx (told_jokes s)"
    using send_line_frame [OF a1] knock_loop_frame [OF k] send_line_frame [OF a3]
      recv_line_frame [OF r] send_line_frame [OF a5] s0 by simp
  ultimately show ?case
    using avail_insert_less [of idx jokes s "s5\<lparr>events := events s5 @ [Restarted]\<rparr>"] by simp
qed

declare play_joke.simps [simp del]

section \<open>Reading the history of a session\<close>

text \<open>
  \<open>selections\<close> lists the jokes selected, in order; \<open>restarts\<close> counts the recursive
  calls of \<open>play_joke\<close>. \<open>joke_lines jokes i\<close> are the lines that \<open>play_joke\<close> sends
  while joke \<open>i\<close> is the selected one. \<open>dialogue_ok jokes cur ev\<close> checks a history
  against the joke \<open>cur\<close> currently selected: a joke is selected only when none is
  current, a line is sent for the current joke only (with no current joke only the line
  "I have no more jokes to tell." may be sent), and a restart happens only while a joke is
  current and leaves none current.
\<close>

fun selections :: "event list \<Rightarrow> nat list" where
  "selections [] = []"
| "selections (Selected i # es) = i # selections es"
| "selections (e # es) = selections es"

fun restarts :: "event list \<Rightarrow> nat" where
  "restarts [] = 0"
| "restarts (Restarted # es) = Suc (restarts es)"
| "restarts (e # es) = restarts es"

definition joke_lines :: "Joke list \<Rightarrow> nat \<Rightarrow> string list" where
  "joke_lines jokes i =
     map wire [knock_prompt, supposed_to_say expect1,
               joke_setup (jokes ! i) @ '' <input>'',
               supposed_to_say (joke_setup (jokes ! i) @ '' who?''),
               joke_punchline (jokes ! i)]"

fun dialogue_ok :: "Joke list \<Rightarrow> nat option \<Rightarrow> event list \<Rightarrow> bool" where
  "dialogue_ok jokes cur [] = True"
| "dialogue_ok jokes cur (Selected i # es) = (cur = None \<and> dialogue_ok jokes (Some i) es)"
| "dialogue_ok jokes cur (Sent l # es) =
     ((case cur of None \<Rightarrow> l = wire no_more_jokes | Some i \<Rightarrow> l \<in> set (joke_lines jokes i))
      \<and> dialogue_ok jokes cur es)"
| "dialogue_ok jokes cur (Restarted # es) = (cur \<noteq> None \<and> dialogue_ok jokes None es)"
| "dialogue_ok jokes cur (Closed # es) = False"

lemma selections_append [simp]: "selections (xs @ ys) = selections xs @ selections ys"
  by (induction xs rule: selections.induct) simp_all

lemma restarts_append [simp]: "restarts (xs @ ys) = restarts xs + restarts ys"
  by (induction xs rule: restarts.induct) simp_all

lemma selections_Sent [simp]: "selections (map Sent ls) = []"
  by (induction ls) simp_all

lemma restarts_Sent [simp]: "restarts (map Sent ls) = 0"
  by (induction ls) simp_all

lemma dialogue_ok_Sent:
  "dialogue_ok jokes (Some i) (map Sent ls @ es) =
     (set ls \<subseteq> set (joke_lines jokes i) \<and> dialogue_ok jokes (Some i) es)"
  by (induction ls) auto

lemma send_line_events:
  "send_line s l = (b, s') \<Longrightarrow> events s' = events s @ map Sent (if b then [wire l] else [])"
  by (auto simp: send_line_def split: list.splits if_splits)

lemma knock_loop_events:
  "knock_loop s = (b, s') \<Longrightarrow>
     \<exists>ls. events s' = events s @ map Sent ls \<and>
          set ls \<subseteq> {wire (supposed_to_say expect1), wire knock_prompt}"
proof (induction s arbitrary: b s' rule: knock_loop.induct)
  case (1 s)
  show ?case
  proof (cases "recv_line s")
    case (fields ok resp s1)
    note r = recv_line_frame [OF fields]
    show ?thesis
    proof (cases "ok \<and> \<not> iequals resp expect1")
      case False
      with "1.prems" fields r have "events s' = events s @ map Sent []"
        by (auto simp: knock_loop.simps [of s] split: if_splits bool.splits)
      then show ?thesis by (intro exI [of _ "[]"]) simp
    next
      case True
      obtain ok2 s2 where a: "send_line s1 (supposed_to_say expect1) = (ok2, s2)"
        by (cases "send_line s1 (supposed_to_say expect1)")
      obtain ok3 s3 where b: "send_line s2 knock_prompt = (ok3, s3)"
        by (cases "send_line s2 knock_prompt")
      note fa = send_line_events [OF a] and fb = send_line_events [OF b]
      show ?thesis
      proof (cases "ok2 \<and> ok3")
        case False
        with "1.prems" fields True a b have "s' = s2 \<and> \<not> ok2 \<or> s' = s3 \<and> ok2 \<and> \<not> ok3"
          by (auto simp: knock_loop.simps [of s] split: if_splits bool.splits)
        then have "events s' = events s @ map Sent [] \<or>
                   events s' = events s @ map Sent [wire (supposed_to_say expect1)]"
          using r fa fb by auto
        then show ?thesis
        proof
          assume "events s' = events s @ map Sent []"
          then show ?thesis by (intro exI [of _ "[]"]) simp
        next
          assume "events s' = events s @ map Sent [wire (supposed_to_say expect1)]"
          then show ?thesis by (intro exI [of _ "[wire (supposed_to_say expect1)]"]) simp
        qed
      next
        case T2: True
        with "1.prems" fields True a b have "knock_loop s3 = (b, s')"
          by (simp add: knock_loop.simps [of s])
        from "1.IH" [OF fields [symmetric] _ refl _ a [symmetric] _ b [symmetric] _ this]
        obtain ls where ls: "events s' = events s3 @ map Sent ls"
          "set ls \<subseteq> {wire (supposed_to_say expect1), wire knock_prompt}"
          using True T2 by auto
        have "events s' = events s @ map Sent ([wire (supposed_to_say expect1), wire knock_prompt] @ ls)"
          using ls(1) r fa fb T2 by simp
        moreover have "set ([wire (supposed_to_say expect1), wire knock_prompt] @ ls)
                \<subseteq> {wire (supposed_to_say expect1), wire knock_prompt}"
          using ls(2) by auto
        ultimately show ?thesis
          by (intro exI [of _ "[wire (supposed_to_say expect1), wire knock_prompt] @ ls"]) simp
      qed
    qed
  qed
qed


lemma play_joke_exhausted:
  "avail jokes s = [] \<Longrightarrow> play_joke jokes s = (False, snd (send_line s no_more_jokes))"
  by (simp add: play_joke.simps [of jokes s])

lemma play_joke_cases:
  assumes run: "play_joke jokes s = (b, s')" and av: "avail jokes s \<noteq> []"
  defines "idx \<equiv> avail jokes s ! fst (dist (length (avail jokes s)) (rng s))"
  shows "\<exists>ls sA. set ls \<subseteq> set (joke_lines jokes idx) \<and>
            told_jokes sA = insert idx (told_jokes s) \<and>
            events sA = events s @ Selected idx # map Sent ls \<and>
            (s' = sA \<or> play_joke jokes (sA\<lparr>events := events sA @ [Restarted]\<rparr>) = (b, s'))"
proof -
  define r where "r = snd (dist (length (avail jokes s)) (rng s))"
  define s0 where "s0 = s\<lparr>told_jokes := insert idx (told_jokes s), rng := r,
                           events := events s @ [Selected idx]\<rparr>"
  define jk where "jk = jokes ! idx"
  define expect2 where "expect2 = joke_setup jk @ '' who?''"
  define Q where "Q = (\<lambda>sA :: ClientSession. told_jokes sA = insert idx (told_jokes s) \<and>
     (\<exists>ls. set ls \<subseteq> set (joke_lines jokes idx) \<and>
           events sA = events s @ Selected idx # map Sent ls))"
  obtain ok1 s1 where a1: "send_line s0 knock_prompt = (ok1, s1)"
    by (cases "send_line s0 knock_prompt")
  obtain ok2 s2 where k2: "knock_loop s1 = (ok2, s2)"
    by (cases "knock_loop s1")
  obtain ok3 s3 where a3: "send_line s2 (joke_setup jk @ '' <input>'') = (ok3, s3)"
    by (cases "send_line s2 (joke_setup jk @ '' <input>'')")
  obtain ok4 resp s4 where r4: "recv_line s3 = (ok4, resp, s4)"
    by (cases "recv_line s3")
  obtain ok5 s5 where a5: "send_line s4 (supposed_to_say expect2) = (ok5, s5)"
    by (cases "send_line s4 (supposed_to_say expect2)")
  obtain okp sp where ap: "send_line s4 (joke_punchline jk) = (okp, sp)"
    by (cases "send_line s4 (joke_punchline jk)")
  have lines: "wire knock_prompt \<in> set (joke_lines jokes idx)"
    "wire (supposed_to_say expect1) \<in> set (joke_lines jokes idx)"
    "wire (joke_setup jk @ '' <input>'') \<in> set (joke_lines jokes idx)"
    "wire (supposed_to_say expect2) \<in> set (joke_lines jokes idx)"
    "wire (joke_punchline jk) \<in> set (joke_lines jokes idx)"
    by (simp_all add: joke_lines_def jk_def expect2_def)
  have step: "Q sB" if "Q sA" "told_jokes sB = told_jokes sA"
    "events sB = events sA @ map Sent ms" "set ms \<subseteq> set (joke_lines jokes idx)" for sA sB :: ClientSession and ms
  proof -
    from that(1) obtain ls where ls: "set ls \<subseteq> set (joke_lines jokes idx)"
      "events sA = events s @ Selected idx # map Sent ls"
      unfolding Q_def by auto
    have "events sB = events s @ Selected idx # map Sent (ls @ ms)"
      using that(3) ls(2) by simp
    moreover have "set (ls @ ms) \<subseteq> set (joke_lines jokes idx)"
      using ls(1) that(4) by simp
    ultimately show ?thesis
      unfolding Q_def using that(1,2) by (metis (no_types, lifting) Q_def)
  qed
  have Q0: "Q s0"
    unfolding Q_def s0_def by (intro conjI exI [of _ "[]"]) simp_all
  have Q1: "Q s1"
    using step [OF Q0 _ send_line_events [OF a1]] send_line_frame [OF a1] lines by auto
  obtain ls2 where ls2: "events s2 = events s1 @ map Sent ls2"
    "set ls2 \<subseteq> {wire (supposed_to_say expect1), wire knock_prompt}"
    using knock_loop_events [OF k2] by auto
  have Q2: "Q s2"
    using step [OF Q1 _ ls2(1)] knock_loop_frame [OF k2] ls2(2) lines by auto
  have Q3: "Q s3"
    using step [OF Q2 _ send_line_events [OF a3]] send_line_frame [OF a3] lines by auto
  have Q4: "Q s4"
    using step [OF Q3, of s4 "[]"] recv_line_frame [OF r4] by simp
  have Q5: "Q s5"
    using step [OF Q4 _ send_line_events [OF a5]] send_line_frame [OF a5] lines by auto
  have Qp: "Q sp"
    using step [OF Q4 _ send_line_events [OF ap]] send_line_frame [OF ap] lines by auto
  have unf: "play_joke jokes s =
     (if \<not> ok1 then (False, s1) else if \<not> ok2 then (False, s2)
      else if \<not> ok3 then (False, s3) else if \<not> ok4 then (False, s4)
      else if \<not> iequals resp expect2 then
        (if \<not> ok5 then (False, s5)
         else play_joke jokes (s5\<lparr>events := events s5 @ [Restarted]\<rparr>))
      else (okp, sp))"
    using av a1 k2 a3 r4 a5 ap
    unfolding s0_def jk_def expect2_def r_def idx_def
    by (simp add: play_joke.simps [of jokes s] Let_def split_beta)
  have "(\<exists>sA. Q sA \<and> s' = sA) \<or>
        (\<exists>sA. Q sA \<and> play_joke jokes (sA\<lparr>events := events sA @ [Restarted]\<rparr>) = (b, s'))"
    using run unf Q1 Q2 Q3 Q4 Q5 Qp by (auto split: if_splits)
  then obtain sA where sA: "Q sA"
    "s' = sA \<or> play_joke jokes (sA\<lparr>events := events sA @ [Restarted]\<rparr>) = (b, s')"
    by auto
  from sA(1) obtain ls where "set ls \<subseteq> set (joke_lines jokes idx)"
    "told_jokes sA = insert idx (told_jokes s)"
    "events sA = events s @ Selected idx # map Sent ls"
    unfolding Q_def by auto
  with sA(2) show ?thesis
    by (intro exI [of _ ls] exI [of _ sA]) simp
qed


lemma avail_pick:
  assumes "avail jokes s \<noteq> []"
  shows "avail jokes s ! fst (dist (length (avail jokes s)) (rng s)) \<in> set (avail jokes s)"
  using assms dist_less [of "length (avail jokes s)" "rng s"] by simp

lemma avail_subset:
  "told_jokes s \<subseteq> told_jokes s' \<Longrightarrow> set (avail jokes s') \<subseteq> set (avail jokes s)"
  by (auto simp: avail_def)

lemma play_joke_summary:
  "play_joke jokes s = (b, s') \<Longrightarrow>
     \<exists>ev. events s' = events s @ ev \<and>
          told_jokes s' = told_jokes s \<union> set (selections ev) \<and>
          distinct (selections ev) \<and>
          set (selections ev) \<subseteq> set (avail jokes s) \<and>
          length (selections ev) \<le> length (avail jokes s) \<and>
          restarts ev \<le> length (selections ev) \<and>
          (b \<longrightarrow> restarts ev < length (selections ev)) \<and>
          dialogue_ok jokes None ev \<and>
          (avail jokes s = [] \<longrightarrow> \<not> b \<and> restarts ev = 0 \<and> selections ev = []) \<and>
          (avail jokes s \<noteq> [] \<longrightarrow>
             (\<exists>rest. ev = Selected (avail jokes s ! fst (dist (length (avail jokes s)) (rng s))) # rest))"
proof (induction "length (avail jokes s)" arbitrary: s b s' rule: less_induct)
  case less
  show ?case
  proof (cases "avail jokes s = []")
    case True
    obtain ok s1 where a: "send_line s no_more_jokes = (ok, s1)"
      by (cases "send_line s no_more_jokes")
    from less.prems True a have res: "b = False" "s' = s1"
      by (simp_all add: play_joke_exhausted)
    let ?ev = "map Sent (if ok then [wire no_more_jokes] else [])"
    show ?thesis
      using True res send_line_events [OF a] send_line_frame [OF a]
      by (intro exI [of _ ?ev]) simp
  next
    case False
    define idx where "idx = avail jokes s ! fst (dist (length (avail jokes s)) (rng s))"
    from play_joke_cases [OF less.prems False]
    obtain ls sA where sA: "set ls \<subseteq> set (joke_lines jokes idx)"
      "told_jokes sA = insert idx (told_jokes s)"
      "events sA = events s @ Selected idx # map Sent ls"
      "s' = sA \<or> play_joke jokes (sA\<lparr>events := events sA @ [Restarted]\<rparr>) = (b, s')"
      unfolding idx_def by blast
    have idx: "idx \<in> set (avail jokes s)"
      unfolding idx_def by (rule avail_pick [OF False])
    then have idx_new: "idx \<notin> told_jokes s"
      by (simp add: avail_def)
    have pos: "0 < length (avail jokes s)"
      using False by simp
    from sA(4) show ?thesis
    proof
      assume "s' = sA"
      let ?ev = "Selected idx # map Sent ls"
      have "dialogue_ok jokes None ?ev"
        using dialogue_ok_Sent [of jokes idx ls "[]"] sA(1) by simp
      then show ?thesis
        using \<open>s' = sA\<close> sA idx False pos
        by (intro exI [of _ ?ev]) (simp add: idx_def Suc_le_eq)
    next
      let ?s6 = "sA\<lparr>events := events sA @ [Restarted]\<rparr>"
      assume rec: "play_joke jokes ?s6 = (b, s')"
      have told6: "told_jokes ?s6 = insert idx (told_jokes s)"
        using sA(2) by simp
      have lt: "length (avail jokes ?s6) < length (avail jokes s)"
        by (rule avail_insert_less [OF idx told6])
      from less.hyps [OF lt rec]
      obtain ev' where ev': "events s' = events ?s6 @ ev'"
        "told_jokes s' = told_jokes ?s6 \<union> set (selections ev')"
        "distinct (selections ev')"
        "set (selections ev') \<subseteq> set (avail jokes ?s6)"
        "length (selections ev') \<le> length (avail jokes ?s6)"
        "restarts ev' \<le> length (selections ev')"
        "b \<longrightarrow> restarts ev' < length (selections ev')"
        "dialogue_ok jokes None ev'"
        by blast
      have sub: "set (avail jokes ?s6) \<subseteq> set (avail jokes s)"
        by (rule avail_subset) (simp add: told6 subset_insertI)
      have notin: "idx \<notin> set (avail jokes ?s6)"
        by (simp add: avail_def sA(2))
      let ?ev = "Selected idx # map Sent ls @ Restarted # ev'"
      have ok: "dialogue_ok jokes None ?ev"
        using dialogue_ok_Sent [of jokes idx ls "Restarted # ev'"] sA(1) ev'(8) by simp
      have e: "events s' = events s @ ?ev"
        using ev'(1) sA(3) by simp
      have t: "told_jokes s' = told_jokes s \<union> set (selections ?ev)"
        using ev'(2) told6 by auto
      have d: "distinct (selections ?ev)"
        using ev'(3,4) notin by auto
      have u: "set (selections ?ev) \<subseteq> set (avail jokes s)"
        using ev'(4) sub idx by auto
      have l: "length (selections ?ev) \<le> length (avail jokes s)"
        using ev'(5) lt by simp
      have r: "restarts ?ev \<le> length (selections ?ev)"
        using ev'(6) by simp
      have rb: "b \<longrightarrow> restarts ?ev < length (selections ?ev)"
        using ev'(7) by simp
      show ?thesis
        using False ok e t d u l r rb
        by (intro exI [of _ ?ev]) (simp add: idx_def)
    qed
  qed
qed

section \<open>Client thread\<close>

definition another_prompt :: string where
  "another_prompt = ''Would you like to listen to another? (Y/N) <input>''"

definition reply_reminder :: string where
  "reply_reminder = ''Please reply with Y or N.''"

text \<open>
  The inner \<^verbatim>\<open>while (true)\<close> loop of \<open>handle_client\<close> ("Ask until we get a valid Y/N").
  The first component of the result is the value of \<^verbatim>\<open>cont\<close> when the loop is left.
\<close>

function ask_another :: "ClientSession \<Rightarrow> bool \<times> ClientSession" where
  "ask_another s =
     (let (ok1, s1) = send_line s another_prompt
      in if \<not> ok1 then (False, s1)
      else
        let (ok2, choice, s2) = recv_line s1
        in if \<not> ok2 then (False, s2)
        else if iequals choice ''N'' \<or> iequals choice ''no'' then (False, s2)
        else if iequals choice ''Y'' \<or> iequals choice ''yes'' then (True, s2)
        else
          let (ok3, s3) = send_line s2 reply_reminder
          in if \<not> ok3 then (False, s3)
          else ask_another s3)"
  by pat_completeness auto
termination
proof (relation "measure (\<lambda>s. length (inp s))", goal_cases)
  case 1
  show ?case by simp
next
  case (2 s x1 ok1 s1 x2 ok2 y2 choice s2 x3 ok3 s3)
  then have a: "send_line s another_prompt = (True, s1)"
    and r: "recv_line s1 = (True, choice, s2)"
    and b: "send_line s2 reply_reminder = (True, s3)"
    by simp_all
  from recv_line_shorter [OF r] send_line_frame [OF a] send_line_frame [OF b]
  show ?case by simp
qed

declare ask_another.simps [simp del]

lemma ask_another_frame:
  "ask_another s = (c, s') \<Longrightarrow>
     told_jokes s' = told_jokes s \<and> rng s' = rng s \<and>
     (\<exists>ls. events s' = events s @ map Sent ls \<and>
           set ls \<subseteq> {wire another_prompt, wire reply_reminder})"
proof (induction s arbitrary: c s' rule: ask_another.induct)
  case (1 s)
  obtain ok1 s1 where a: "send_line s another_prompt = (ok1, s1)"
    by (cases "send_line s another_prompt")
  obtain ok2 choice s2 where r: "recv_line s1 = (ok2, choice, s2)"
    by (cases "recv_line s1")
  obtain ok3 s3 where b: "send_line s2 reply_reminder = (ok3, s3)"
    by (cases "send_line s2 reply_reminder")
  note fa = send_line_frame [OF a] send_line_events [OF a]
    and fr = recv_line_frame [OF r]
    and fb = send_line_frame [OF b] send_line_events [OF b]
  define again where "again \<longleftrightarrow> ok1 \<and> ok2 \<and> ok3 \<and>
     \<not> (iequals choice ''N'' \<or> iequals choice ''no'') \<and>
     \<not> (iequals choice ''Y'' \<or> iequals choice ''yes'')"
  show ?case
  proof (cases again)
    case False
    with "1.prems" a r b have "s' = s1 \<or> s' = s2 \<or> s' = s3 \<and> ok1"
      by (auto simp: ask_another.simps [of s] again_def split: if_splits)
    then consider "s' = s1" | "s' = s2" | "s' = s3" "ok1" by blast
    then show ?thesis
    proof cases
      case 1
      then show ?thesis using fa
        by (intro conjI exI [of _ "if ok1 then [wire another_prompt] else []"]) auto
    next
      case 2
      then show ?thesis using fa fr
        by (intro conjI exI [of _ "if ok1 then [wire another_prompt] else []"]) auto
    next
      case 3
      then show ?thesis using fa fr fb
        by (intro conjI exI [of _ "wire another_prompt # (if ok3 then [wire reply_reminder] else [])"])
          auto
    qed
  next
    case True
    with "1.prems" a r b have rec: "ask_another s3 = (c, s')"
      by (simp add: ask_another.simps [of s] again_def)
    from True have c: "ok1" "ok2" "ok3"
      "\<not> (iequals choice ''N'' \<or> iequals choice ''no'')"
      "\<not> (iequals choice ''Y'' \<or> iequals choice ''yes'')"
      by (simp_all add: again_def)
    from "1.IH" [OF refl a [symmetric] _ refl r [symmetric] refl _ _ _ refl b [symmetric] _ rec] c
    obtain ls where ls: "told_jokes s' = told_jokes s3" "rng s' = rng s3"
      "events s' = events s3 @ map Sent ls"
      "set ls \<subseteq> {wire another_prompt, wire reply_reminder}"
      by auto
    show ?thesis
      using ls fa fr fb c
      by (intro conjI exI [of _ "[wire another_prompt, wire reply_reminder] @ ls"]) simp_all
  qed
qed

lemma avail_grow_less:
  assumes "i \<in> set (avail jokes s)" and "told_jokes s \<subseteq> told_jokes s'"
    and "i \<in> told_jokes s'"
  shows "length (avail jokes s') < length (avail jokes s)"
proof -
  have "avail jokes s' = filter (\<lambda>j. j \<notin> told_jokes s') (avail jokes s)"
    using assms(2) by (auto simp: avail_def intro: filter_cong)
  with assms(1,3) show ?thesis
    by (simp add: length_filter_less)
qed

text \<open>
  The outer \<^verbatim>\<open>while (cont)\<close> loop of \<open>handle_client\<close>; it returns the session as it
  is when the loop is left. Every round that continues has told one more joke, which is
  the termination argument.
\<close>

function session_loop :: "Joke list \<Rightarrow> ClientSession \<Rightarrow> ClientSession" where
  "session_loop jokes s =
     (let (ok, s1) = play_joke jokes s
      in if \<not> ok then s1
      else
        let (cont, s2) = ask_another s1
        in if cont then session_loop jokes s2 else s2)"
  by pat_completeness auto
termination
proof (relation "measure (\<lambda>(jokes, s). length (avail jokes s))", goal_cases)
  case 1
  show ?case by simp
next
  case (2 jokes s x1 ok s1 x2 cont s2)
  then have p: "play_joke jokes s = (True, s1)" and a: "ask_another s1 = (True, s2)"
    by simp_all
  from play_joke_summary [OF p]
  obtain ev where ev: "told_jokes s1 = told_jokes s \<union> set (selections ev)"
    "set (selections ev) \<subseteq> set (avail jokes s)"
    "restarts ev < length (selections ev)"
    by auto
  then obtain i where i: "i \<in> set (selections ev)"
    by (cases "selections ev") auto
  have t2: "told_jokes s2 = told_jokes s1"
    using ask_another_frame [OF a] by simp
  have "i \<in> set (avail jokes s)"
    using i ev(2) by auto
  moreover have "told_jokes s \<subseteq> told_jokes s2" "i \<in> told_jokes s2"
    using ev(1) i t2 by auto
  ultimately have "length (avail jokes s2) < length (avail jokes s)"
    by (rule avail_grow_less)
  then show ?case by simp
qed

declare session_loop.simps [simp del]

text \<open>
  \<open>handle_client\<close>: the loop, then \<^verbatim>\<open>close(session->fd)\<close>. The generator is seeded
  before the loop; the session given to the function carries the seeded generator. The
  decrement of \<^verbatim>\<open>active_clients\<close> belongs to the accept loop's counter, modelled further
  below by what the accept loop observes.
\<close>

definition handle_client :: "Joke list \<Rightarrow> ClientSession \<Rightarrow> ClientSession" where
  "handle_client jokes s =
     (let s' = session_loop jokes s in s'\<lparr>events := events s' @ [Closed]\<rparr>)"

section \<open>Properties of the dialogue\<close>

lemma avail_empty_iff: "avail jokes s = [] \<longleftrightarrow> (\<forall>i<length jokes. i \<in> told_jokes s)"
  by (auto simp: avail_def filter_empty_conv)

lemma length_avail_le: "length (avail jokes s) \<le> length jokes"
  using length_filter_le [of "\<lambda>i. i \<notin> told_jokes s" "[0..<length jokes]"]
  by (simp add: avail_def)

lemma send_line_sendok:
  "send_line s l = (b, s') \<Longrightarrow> sendok s' = tl (sendok s) \<and> (\<not> b \<longrightarrow> False \<in> set (sendok s))"
  by (auto simp: send_line_def split: list.splits if_splits)

lemma recv_line_inp_fail: "recv_line s = (False, l, s') \<Longrightarrow> inp s' = []"
proof -
  have "recv_loop acc bytes = (False, l, rest) \<Longrightarrow> rest = []" for acc bytes rest
    by (induction bytes arbitrary: acc) (auto split: if_splits)
  then show "recv_line s = (False, l, s') \<Longrightarrow> inp s' = []"
    by (auto simp: recv_line_def split: prod.splits)
qed

lemma knock_loop_step:
  assumes "recv_line s = (ok, resp, s1)"
    and "send_line s1 (supposed_to_say expect1) = (ok2, s2)"
    and "send_line s2 knock_prompt = (ok3, s3)"
  shows "knock_loop s =
     (if \<not> ok then (False, s1) else if iequals resp expect1 then (True, s1)
      else if \<not> ok2 then (False, s2) else if \<not> ok3 then (False, s3) else knock_loop s3)"
  using assms by (simp add: knock_loop.simps [of s])

lemma knock_loop_exit:
  "knock_loop s = (b, s') \<Longrightarrow>
     (b \<longrightarrow> (\<exists>s0 resp. recv_line s0 = (True, resp, s') \<and> iequals resp expect1)) \<and>
     (\<not> b \<longrightarrow> inp s' = [] \<or> False \<in> set (sendok s))"
proof (induction "length (inp s)" arbitrary: s rule: less_induct)
  case less
  obtain ok resp s1 where r: "recv_line s = (ok, resp, s1)"
    by (cases "recv_line s")
  obtain ok2 s2 where a: "send_line s1 (supposed_to_say expect1) = (ok2, s2)"
    by (cases "send_line s1 (supposed_to_say expect1)")
  obtain ok3 s3 where c: "send_line s2 knock_prompt = (ok3, s3)"
    by (cases "send_line s2 knock_prompt")
  note step = knock_loop_step [OF r a c]
  note fr = recv_line_frame [OF r]
  note fa = send_line_frame [OF a] send_line_sendok [OF a]
  note fc = send_line_frame [OF c] send_line_sendok [OF c]
  show ?case
  proof (cases "ok \<and> \<not> iequals resp expect1 \<and> ok2 \<and> ok3")
    case True
    with step less.prems have rec: "knock_loop s3 = (b, s')" by simp
    from True r have "length (inp s1) < length (inp s)"
      by (auto dest: recv_line_shorter)
    with fa fc have "length (inp s3) < length (inp s)" by simp
    from less.hyps [OF this rec]
    have "(b \<longrightarrow> (\<exists>s0 resp. recv_line s0 = (True, resp, s') \<and> iequals resp expect1)) \<and>
          (\<not> b \<longrightarrow> inp s' = [] \<or> False \<in> set (sendok s3))" .
    moreover have "set (sendok s3) \<subseteq> set (sendok s)"
      using fr fa fc by (metis list.set_sel(2) subsetI tl_Nil)
    ultimately show ?thesis by blast
  next
    case False
    then consider "\<not> ok" | "ok" "iequals resp expect1"
      | "ok" "\<not> iequals resp expect1" "\<not> ok2"
      | "ok" "\<not> iequals resp expect1" "ok2" "\<not> ok3"
      by blast
    then show ?thesis
    proof cases
      case 1
      with step less.prems r show ?thesis
        by (auto dest: recv_line_inp_fail)
    next
      case 2
      with step less.prems r show ?thesis by auto
    next
      case 3
      with step less.prems fa fr show ?thesis by auto
    next
      case 4
      with step less.prems have "b = False" "s' = s3" by simp_all
      moreover have "False \<in> set (sendok s2)" using 4 fc by simp
      then have "False \<in> set (sendok s)"
        using fa fr by (metis list.set_sel(2) tl_Nil empty_iff list.set(1))
      ultimately show ?thesis by simp
    qed
  qed
qed

lemma reply_words:
  "lower (trim ''Y'') = ''y''" "lower (trim ''yes'') = ''yes''"
  "lower (trim ''N'') = ''n''" "lower (trim ''no'') = ''no''"
  by code_simp+

lemma yes_excludes_no:
  "iequals choice ''Y'' \<or> iequals choice ''yes'' \<Longrightarrow>
     \<not> (iequals choice ''N'' \<or> iequals choice ''no'')"
  by (auto simp: iequals_def reply_words)

lemma ask_another_step:
  assumes "send_line s another_prompt = (ok1, s1)"
    and "recv_line s1 = (ok2, choice, s2)"
    and "send_line s2 reply_reminder = (ok3, s3)"
  shows "ask_another s =
     (if \<not> ok1 then (False, s1) else if \<not> ok2 then (False, s2)
      else if iequals choice ''N'' \<or> iequals choice ''no'' then (False, s2)
      else if iequals choice ''Y'' \<or> iequals choice ''yes'' then (True, s2)
      else if \<not> ok3 then (False, s3) else ask_another s3)"
  using assms by (simp add: ask_another.simps [of s])

lemma session_loop_step:
  assumes "play_joke jokes s0 = (ok, s)" and "ask_another s = (cont, s')"
  shows "session_loop jokes s0 = (if \<not> ok then s else if cont then session_loop jokes s' else s')"
  using assms by (simp add: session_loop.simps [of jokes s0])

lemma session_loop_summary:
  "\<exists>ev. events (session_loop jokes s) = events s @ ev \<and>
        told_jokes (session_loop jokes s) = told_jokes s \<union> set (selections ev) \<and>
        distinct (selections ev) \<and>
        set (selections ev) \<subseteq> set (avail jokes s)"
proof (induction "length (avail jokes s)" arbitrary: s rule: less_induct)
  case less
  obtain ok s1 where p: "play_joke jokes s = (ok, s1)"
    by (cases "play_joke jokes s")
  obtain cont s2 where a: "ask_another s1 = (cont, s2)"
    by (cases "ask_another s1")
  note step = session_loop_step [OF p a]
  from play_joke_summary [OF p] obtain ev1 where ev1:
    "events s1 = events s @ ev1"
    "told_jokes s1 = told_jokes s \<union> set (selections ev1)"
    "distinct (selections ev1)"
    "set (selections ev1) \<subseteq> set (avail jokes s)"
    "ok \<longrightarrow> restarts ev1 < length (selections ev1)"
    by blast
  from ask_another_frame [OF a] obtain ls where ls:
    "told_jokes s2 = told_jokes s1" "events s2 = events s1 @ map Sent ls"
    by blast
  show ?case
  proof (cases ok)
    case False
    with step ev1 show ?thesis
      by (intro exI [of _ ev1]) simp
  next
    case True
    note ok = True
    have e2: "events s2 = events s @ (ev1 @ map Sent ls)"
      using ev1(1) ls(2) by simp
    have t2: "told_jokes s2 = told_jokes s \<union> set (selections (ev1 @ map Sent ls))"
      using ev1(2) ls(1) by simp
    show ?thesis
    proof (cases cont)
      case False
      with step ok e2 t2 ev1 show ?thesis
        by (intro exI [of _ "ev1 @ map Sent ls"]) simp
    next
      case True
      from ok ev1(5) obtain i where i: "i \<in> set (selections ev1)"
        by (cases "selections ev1") auto
      have "length (avail jokes s2) < length (avail jokes s)"
      proof (rule avail_grow_less)
        show "i \<in> set (avail jokes s)" using i ev1(4) by auto
        show "told_jokes s \<subseteq> told_jokes s2" using t2 by auto
        show "i \<in> told_jokes s2" using i t2 by simp
      qed
      from less.hyps [OF this] obtain ev2 where ev2:
        "events (session_loop jokes s2) = events s2 @ ev2"
        "told_jokes (session_loop jokes s2) = told_jokes s2 \<union> set (selections ev2)"
        "distinct (selections ev2)"
        "set (selections ev2) \<subseteq> set (avail jokes s2)"
        by blast
      have disj: "set (selections ev1) \<inter> set (selections ev2) = {}"
        using ev2(4) t2 by (auto simp: avail_def)
      have sub: "set (avail jokes s2) \<subseteq> set (avail jokes s)"
        by (rule avail_subset) (use t2 in auto)
      let ?ev = "ev1 @ map Sent ls @ ev2"
      have "session_loop jokes s = session_loop jokes s2"
        using step ok True by simp
      then show ?thesis
        using ev2 e2 t2 ev1(3,4) disj sub
        by (intro exI [of _ ?ev]) auto
    qed
  qed
qed

text \<open>The lines of the protocol as they go over the wire.\<close>

lemma protocol_lines:
  "expect1 = ''Who's there?''"
  "wire knock_prompt = ''Knock knock! <input>'' @ [CHR 0x0A]"
  "wire (supposed_to_say expect1) =
     ''You are supposed to say, '' @ [CHR 0x22] @ ''Who's there?'' @ [CHR 0x22] @
     ''. Let's try again.'' @ [CHR 0x0A]"
  "wire (supposed_to_say ''Who's there?'') =
     ''You are supposed to say, '' @ [CHR 0x22] @ ''Who's there?'' @ [CHR 0x22] @
     ''. Let's try again.'' @ [CHR 0x0A]"
  "wire no_more_jokes = ''I have no more jokes to tell.'' @ [CHR 0x0A]"
  "wire another_prompt = ''Would you like to listen to another? (Y/N) <input>'' @ [CHR 0x0A]"
  "wire reply_reminder = ''Please reply with Y or N.'' @ [CHR 0x0A]"
  by (simp_all add: expect1_def knock_prompt_def supposed_to_say_def no_more_jokes_def
      another_prompt_def reply_reminder_def wire_def LF_def)

lemma recv_loop_suffix: "recv_loop acc bytes = (ok, l, rest) \<Longrightarrow> suffix rest bytes"
proof (induction bytes arbitrary: acc)
  case Nil
  then show ?case by simp
next
  case (Cons ch bytes)
  then show ?case
    by (auto split: if_splits intro: suffix_ConsI)
qed

lemma recv_line_suffix: "recv_line s = (ok, l, s') \<Longrightarrow> suffix (inp s') (inp s)"
  by (auto simp: recv_line_def split: prod.splits dest: recv_loop_suffix)

lemma knock_loop_match:
  "knock_loop s = (True, s') \<Longrightarrow>
     \<exists>n s0 r.
        events s0 = events s @
          concat (replicate n [Sent (wire (supposed_to_say expect1)), Sent (wire knock_prompt)]) \<and>
        suffix (inp s0) (inp s) \<and> recv_line s0 = (True, r, s') \<and> iequals r expect1"
proof (induction "length (inp s)" arbitrary: s rule: less_induct)
  case less
  obtain ok resp s1 where r: "recv_line s = (ok, resp, s1)"
    by (cases "recv_line s")
  obtain ok2 s2 where a: "send_line s1 (supposed_to_say expect1) = (ok2, s2)"
    by (cases "send_line s1 (supposed_to_say expect1)")
  obtain ok3 s3 where c: "send_line s2 knock_prompt = (ok3, s3)"
    by (cases "send_line s2 knock_prompt")
  note step = knock_loop_step [OF r a c]
  show ?case
  proof (cases "ok \<and> iequals resp expect1")
    case True
    with step less.prems have "s' = s1" by simp
    with True r show ?thesis
      by (intro exI [of _ 0] exI [of _ s] exI [of _ resp]) simp
  next
    case False
    with step less.prems have go: "ok" "\<not> iequals resp expect1" "ok2" "ok3"
      and rec: "knock_loop s3 = (True, s')"
      by (auto split: if_splits)
    note fr = recv_line_frame [OF r]
    note fa = send_line_frame [OF a] send_line_events [OF a]
    note fc = send_line_frame [OF c] send_line_events [OF c]
    from go r have "length (inp s1) < length (inp s)"
      by (auto dest: recv_line_shorter)
    with fa fc have "length (inp s3) < length (inp s)" by simp
    from less.hyps [OF this rec] obtain n s0 r0 where IH:
      "events s0 = events s3 @
          concat (replicate n [Sent (wire (supposed_to_say expect1)), Sent (wire knock_prompt)])"
      "suffix (inp s0) (inp s3)" "recv_line s0 = (True, r0, s')" "iequals r0 expect1"
      by blast
    have e3: "events s3 = events s @ [Sent (wire (supposed_to_say expect1)), Sent (wire knock_prompt)]"
      using fr fa fc go by simp
    have ev: "events s0 = events s @
          concat (replicate (Suc n) [Sent (wire (supposed_to_say expect1)), Sent (wire knock_prompt)])"
      using IH(1) e3 by simp
    have "suffix (inp s3) (inp s)"
      using recv_line_suffix [OF r] fa fc by simp
    with IH(2) have su: "suffix (inp s0) (inp s)"
      by (rule suffix_order.trans)
    from ev su IH(3,4) show ?thesis
      by (intro exI [of _ "Suc n"] exI [of _ s0] exI [of _ r0]) (intro conjI)
  qed
qed

text \<open>
  A catalog of two jokes and the bytes of a client that gives a wrong second reply; they
  serve as concrete inputs below. \<open>line_session\<close> starts with nothing told and a
  generator that always picks the first available joke.
\<close>

definition demo_jokes :: "Joke list" where
  "demo_jokes =
     [\<lparr>joke_setup = ''Boo'', joke_punchline = ''Don't cry, it's only a joke.''\<rparr>,
      \<lparr>joke_setup = ''Lettuce'', joke_punchline = ''Lettuce in, it's cold out here!''\<rparr>]"

definition one_joke :: "Joke list" where
  "one_joke = [\<lparr>joke_setup = ''Boo'', joke_punchline = ''Don't cry, it's only a joke.''\<rparr>]"

definition wrong_second_reply :: string where
  "wrong_second_reply =
     ''Who's there?'' @ [LF] @ ''Boo?'' @ [LF] @ ''Who's there?'' @ [LF] @ ''Boo who?'' @ [LF]"

text \<open>
  \<^bold>\<open>C1.\<close> A client answers the first prompt correctly, answers the prompt for "Boo"
  with "Boo?", and then tries the same joke again. With "Boo" the only joke of the catalog,
  the correction line naming "Boo who?" is followed by the recursive call of
  \<open>play_joke\<close>, which finds no joke left, sends "I have no more jokes to tell." and
  returns \<open>False\<close>: the exchange for "Boo" is not restarted. With a second joke in the
  catalog the recursive call selects joke 1 ("Lettuce") and not joke 0 again; the reply
  "Boo who?" is then wrong for it, and the next recursive call ends in the same way.
\<close>

theorem wrong_second_reply_selects_other_joke:
  "play_joke one_joke (line_session wrong_second_reply) =
     (False, (line_session (''Who's there?'' @ [LF] @ ''Boo who?'' @ [LF]))
        \<lparr>told_jokes := {0},
         events := [Selected 0, Sent (wire knock_prompt), Sent (wire ''Boo <input>''),
                    Sent (wire (supposed_to_say ''Boo who?'')), Restarted,
                    Sent (wire no_more_jokes)]\<rparr>) \<and>
   fst (play_joke demo_jokes (line_session wrong_second_reply)) = False \<and>
   events (snd (play_joke demo_jokes (line_session wrong_second_reply))) =
     [Selected 0, Sent (wire knock_prompt), Sent (wire ''Boo <input>''),
      Sent (wire (supposed_to_say ''Boo who?'')), Restarted,
      Selected 1, Sent (wire knock_prompt), Sent (wire ''Lettuce <input>''),
      Sent (wire (supposed_to_say ''Lettuce who?'')), Restarted,
      Sent (wire no_more_jokes)]"
  by code_simp

text \<open>
  \<^bold>\<open>C2.\<close> Over a call of \<open>play_joke\<close> and over the whole session run by
  \<open>handle_client\<close> the set \<open>told_jokes\<close> only grows: it ends as the initial set together
  with the indices selected on the way. The selected indices are pairwise distinct and none
  of them was in the set at the start, so no index is selected twice, restarts included.
  Within \<open>play_joke\<close> every line for a joke is sent after the event that selects that
  joke and puts it into \<open>told_jokes\<close> (\<open>dialogue_ok\<close>).
\<close>

theorem told_grows_never_reselected:
  "told_jokes s \<subseteq> told_jokes (snd (play_joke jokes s)) \<and>
   told_jokes s \<subseteq> told_jokes (handle_client jokes s) \<and>
   (\<exists>ev. events (handle_client jokes s) = events s @ ev @ [Closed] \<and>
         told_jokes (handle_client jokes s) = told_jokes s \<union> set (selections ev) \<and>
         distinct (selections ev) \<and> set (selections ev) \<inter> told_jokes s = {}) \<and>
   (\<exists>ev. events (snd (play_joke jokes s)) = events s @ ev \<and>
         told_jokes (snd (play_joke jokes s)) = told_jokes s \<union> set (selections ev) \<and>
         distinct (selections ev) \<and> set (selections ev) \<inter> told_jokes s = {} \<and>
         dialogue_ok jokes None ev)"
proof -
  obtain ok s1 where p: "play_joke jokes s = (ok, s1)"
    by (cases "play_joke jokes s")
  from play_joke_summary [OF p] obtain ev1 where ev1:
    "events s1 = events s @ ev1"
    "told_jokes s1 = told_jokes s \<union> set (selections ev1)"
    "distinct (selections ev1)"
    "set (selections ev1) \<subseteq> set (avail jokes s)"
    "dialogue_ok jokes None ev1"
    by blast
  from session_loop_summary [of jokes s] obtain ev where ev:
    "events (session_loop jokes s) = events s @ ev"
    "told_jokes (session_loop jokes s) = told_jokes s \<union> set (selections ev)"
    "distinct (selections ev)"
    "set (selections ev) \<subseteq> set (avail jokes s)"
    by blast
  have d1: "set (selections ev1) \<inter> told_jokes s = {}"
    using ev1(4) by (auto simp: avail_def)
  have d: "set (selections ev) \<inter> told_jokes s = {}"
    using ev(4) by (auto simp: avail_def)
  have A: "told_jokes s \<subseteq> told_jokes (snd (play_joke jokes s))"
    using p ev1(2) by auto
  have B: "told_jokes s \<subseteq> told_jokes (handle_client jokes s)"
    using ev(2) by (auto simp: handle_client_def Let_def)
  have C: "\<exists>ev. events (handle_client jokes s) = events s @ ev @ [Closed] \<and>
         told_jokes (handle_client jokes s) = told_jokes s \<union> set (selections ev) \<and>
         distinct (selections ev) \<and> set (selections ev) \<inter> told_jokes s = {}"
    using ev d by (intro exI [of _ ev]) (simp add: handle_client_def Let_def)
  have D: "\<exists>ev. events (snd (play_joke jokes s)) = events s @ ev \<and>
         told_jokes (snd (play_joke jokes s)) = told_jokes s \<union> set (selections ev) \<and>
         distinct (selections ev) \<and> set (selections ev) \<inter> told_jokes s = {} \<and>
         dialogue_ok jokes None ev"
    using p ev1 d1 by (intro exI [of _ ev1]) simp
  from A B C D show ?thesis by (intro conjI)
qed

theorem told_grows_never_reselected_witness:
  "selections (events (handle_client demo_jokes (line_session wrong_second_reply))) = [0, 1] \<and>
   told_jokes (line_session wrong_second_reply)
     \<subseteq> told_jokes (handle_client demo_jokes (line_session wrong_second_reply))"
proof -
  have "selections (events (handle_client demo_jokes (line_session wrong_second_reply))) = [0, 1]"
    by code_simp
  with told_grows_never_reselected [where s = "line_session wrong_second_reply"
      and jokes = demo_jokes]
  show ?thesis by simp
qed

text \<open>
  \<^bold>\<open>C3.\<close> One round of the loop that waits for "Who's there?", and the loop as a whole.
  A reply that matches "Who's there?" ends the loop with success and nothing is sent; a
  failed read ends it with failure. A reply that does not match makes the server send
  exactly two lines, the correction
  \<^verbatim>\<open>You are supposed to say, "Who's there?". Let's try again.\<close> and then the prompt
  \<^verbatim>\<open>Knock knock! <input>\<close>, after which the loop goes on with the next reply,
  \<open>told_jokes\<close> and the generator being as before; when one of the two sends fails the
  loop ends with failure. However the loop ends, \<open>told_jokes\<close> and the generator are
  unchanged (the selected joke is a local of \<open>play_joke\<close> that the loop never sees). When
  it ends with success, some number \<open>n\<close> of such pairs of lines has been sent and the
  reply read last, from the input that was left then, matches "Who's there?"; it ends with
  failure only when the input has ended or a send has failed.
\<close>

theorem knock_mismatch_reprompts:
  "(recv_line s = (True, resp, s1) \<and> iequals resp ''Who's there?'' \<longrightarrow>
      knock_loop s = (True, s1)) \<and>
   (recv_line s = (False, resp, s1) \<longrightarrow> knock_loop s = (False, s1)) \<and>
   (recv_line s = (True, resp, s1) \<and> \<not> iequals resp ''Who's there?'' \<longrightarrow>
      (send_line s1 (supposed_to_say expect1) = (True, s2) \<and>
       send_line s2 knock_prompt = (True, s3) \<longrightarrow>
         knock_loop s = knock_loop s3 \<and>
         events s3 = events s @
           [Sent (''You are supposed to say, '' @ [CHR 0x22] @ ''Who's there?'' @ [CHR 0x22] @
                  ''. Let's try again.'' @ [CHR 0x0A]),
            Sent (''Knock knock! <input>'' @ [CHR 0x0A])] \<and>
         inp s3 = inp s1 \<and> told_jokes s3 = told_jokes s \<and> rng s3 = rng s) \<and>
      (send_line s1 (supposed_to_say expect1) = (False, s2) \<longrightarrow> knock_loop s = (False, s2)) \<and>
      (send_line s1 (supposed_to_say expect1) = (True, s2) \<and>
       send_line s2 knock_prompt = (False, s3) \<longrightarrow> knock_loop s = (False, s3))) \<and>
   (\<forall>b s'. knock_loop s = (b, s') \<longrightarrow>
      told_jokes s' = told_jokes s \<and> rng s' = rng s \<and>
      (b \<longrightarrow>
         (\<exists>n s0 r.
            events s0 = events s @
              concat (replicate n
                [Sent (''You are supposed to say, '' @ [CHR 0x22] @ ''Who's there?'' @ [CHR 0x22] @
                       ''. Let's try again.'' @ [CHR 0x0A]),
                 Sent (''Knock knock! <input>'' @ [CHR 0x0A])]) \<and>
            suffix (inp s0) (inp s) \<and> recv_line s0 = (True, r, s') \<and>
            iequals r ''Who's there?'')) \<and>
      (\<not> b \<longrightarrow> inp s' = [] \<or> False \<in> set (sendok s)))"
proof -
  obtain ok2' s2' where a': "send_line s1 (supposed_to_say expect1) = (ok2', s2')"
    by (cases "send_line s1 (supposed_to_say expect1)")
  obtain ok3' s3' where c': "send_line s2' knock_prompt = (ok3', s3')"
    by (cases "send_line s2' knock_prompt")
  have A: "knock_loop s = (True, s1)"
    if "recv_line s = (True, resp, s1) \<and> iequals resp ''Who's there?''"
    using knock_loop_step [OF _ a' c', of s True resp] that by (simp add: protocol_lines)
  have B: "knock_loop s = (False, s1)" if "recv_line s = (False, resp, s1)"
    using knock_loop_step [OF that a' c'] by simp
  have C: "knock_loop s = knock_loop s3 \<and>
         events s3 = events s @
           [Sent (''You are supposed to say, '' @ [CHR 0x22] @ ''Who's there?'' @ [CHR 0x22] @
                  ''. Let's try again.'' @ [CHR 0x0A]),
            Sent (''Knock knock! <input>'' @ [CHR 0x0A])] \<and>
         inp s3 = inp s1 \<and> told_jokes s3 = told_jokes s \<and> rng s3 = rng s"
    if h: "recv_line s = (True, resp, s1) \<and> \<not> iequals resp ''Who's there?''"
      and g: "send_line s1 (supposed_to_say expect1) = (True, s2) \<and>
       send_line s2 knock_prompt = (True, s3)"
  proof -
    from h have r: "recv_line s = (True, resp, s1)" and n: "\<not> iequals resp expect1"
      by (simp_all add: protocol_lines)
    from g have a: "send_line s1 (supposed_to_say expect1) = (True, s2)"
      and c: "send_line s2 knock_prompt = (True, s3)" by simp_all
    have 1: "knock_loop s = knock_loop s3"
      using knock_loop_step [OF r a c] n by simp
    have 2: "events s3 = events s @ [Sent (wire (supposed_to_say expect1)), Sent (wire knock_prompt)]"
      using recv_line_frame [OF r] send_line_events [OF a] send_line_events [OF c] by simp
    have 3: "inp s3 = inp s1 \<and> told_jokes s3 = told_jokes s \<and> rng s3 = rng s"
      using recv_line_frame [OF r] send_line_frame [OF a] send_line_frame [OF c] by simp
    from 1 2 3 show ?thesis by (simp add: protocol_lines)
  qed
  have D: "knock_loop s = (False, s2)"
    if h: "recv_line s = (True, resp, s1) \<and> \<not> iequals resp ''Who's there?''"
      and a: "send_line s1 (supposed_to_say expect1) = (False, s2)"
  proof -
    obtain ok3 s3'' where c: "send_line s2 knock_prompt = (ok3, s3'')"
      by (cases "send_line s2 knock_prompt")
    from h have r: "recv_line s = (True, resp, s1)" and n: "\<not> iequals resp expect1"
      by (simp_all add: protocol_lines)
    show ?thesis using knock_loop_step [OF r a c] n by simp
  qed
  have E: "knock_loop s = (False, s3)"
    if h: "recv_line s = (True, resp, s1) \<and> \<not> iequals resp ''Who's there?''"
      and g: "send_line s1 (supposed_to_say expect1) = (True, s2) \<and>
       send_line s2 knock_prompt = (False, s3)"
  proof -
    from h have r: "recv_line s = (True, resp, s1)" and n: "\<not> iequals resp expect1"
      by (simp_all add: protocol_lines)
    from g have a: "send_line s1 (supposed_to_say expect1) = (True, s2)"
      and c: "send_line s2 knock_prompt = (False, s3)" by simp_all
    show ?thesis using knock_loop_step [OF r a c] n by simp
  qed
  have F: "told_jokes s' = told_jokes s \<and> rng s' = rng s \<and>
      (b \<longrightarrow>
         (\<exists>n s0 r.
            events s0 = events s @
              concat (replicate n
                [Sent (''You are supposed to say, '' @ [CHR 0x22] @ ''Who's there?'' @ [CHR 0x22] @
                       ''. Let's try again.'' @ [CHR 0x0A]),
                 Sent (''Knock knock! <input>'' @ [CHR 0x0A])]) \<and>
            suffix (inp s0) (inp s) \<and> recv_line s0 = (True, r, s') \<and>
            iequals r ''Who's there?'')) \<and>
      (\<not> b \<longrightarrow> inp s' = [] \<or> False \<in> set (sendok s))"
    if k: "knock_loop s = (b, s')" for b s'
  proof (intro conjI impI)
    show "told_jokes s' = told_jokes s" using knock_loop_frame [OF k] by simp
    show "rng s' = rng s" using knock_loop_frame [OF k] by simp
    {
      assume b
      with k have "knock_loop s = (True, s')" by simp
      from knock_loop_match [OF this]
      show "\<exists>n s0 r.
            events s0 = events s @
              concat (replicate n
                [Sent (''You are supposed to say, '' @ [CHR 0x22] @ ''Who's there?'' @ [CHR 0x22] @
                       ''. Let's try again.'' @ [CHR 0x0A]),
                 Sent (''Knock knock! <input>'' @ [CHR 0x0A])]) \<and>
            suffix (inp s0) (inp s) \<and> recv_line s0 = (True, r, s') \<and>
            iequals r ''Who's there?''"
        by (simp only: protocol_lines)
    }
    {
      assume "\<not> b"
      with knock_loop_exit [OF k]
      show "inp s' = [] \<or> False \<in> set (sendok s)" by simp
    }
  qed
  from A B C D E F show ?thesis
    by (intro conjI impI allI) blast+
qed

theorem knock_mismatch_reprompts_witness:
  "recv_line (line_session (''Who there?'' @ [LF] @ ''Who's there?'' @ [LF])) =
     (True, ''Who there?'', line_session (''Who's there?'' @ [LF])) \<and>
   \<not> iequals ''Who there?'' ''Who's there?'' \<and>
   knock_loop (line_session (''Who there?'' @ [LF] @ ''Who's there?'' @ [LF])) =
     (True, (line_session [])\<lparr>events :=
        [Sent (''You are supposed to say, '' @ [CHR 0x22] @ ''Who's there?'' @ [CHR 0x22] @
               ''. Let's try again.'' @ [CHR 0x0A]),
         Sent (''Knock knock! <input>'' @ [CHR 0x0A])]\<rparr>)"
proof -
  let ?c = "''You are supposed to say, '' @ [CHR 0x22] @ ''Who's there?'' @ [CHR 0x22] @
               ''. Let's try again.'' @ [CHR 0x0A]"
  let ?k = "''Knock knock! <input>'' @ [CHR 0x0A]"
  let ?s = "line_session (''Who there?'' @ [LF] @ ''Who's there?'' @ [LF])"
  let ?s1 = "line_session (''Who's there?'' @ [LF])"
  let ?s2 = "?s1\<lparr>events := [Sent ?c]\<rparr>"
  let ?s3 = "?s1\<lparr>events := [Sent ?c, Sent ?k]\<rparr>"
  let ?s4 = "(line_session [])\<lparr>events := [Sent ?c, Sent ?k]\<rparr>"
  have r: "recv_line ?s = (True, ''Who there?'', ?s1)"
    by (simp add: recv_line_def line_session_def LF_def CR_def)
  have n: "\<not> iequals ''Who there?'' ''Who's there?''"
    by code_simp
  have a: "send_line ?s1 (supposed_to_say expect1) = (True, ?s2)"
    by (simp add: send_line_def line_session_def protocol_lines(3))
  have c: "send_line ?s2 knock_prompt = (True, ?s3)"
    by (simp add: send_line_def line_session_def protocol_lines(2))
  have r3: "recv_line ?s3 = (True, ''Who's there?'', ?s4)"
    by (simp add: recv_line_def line_session_def LF_def CR_def)
  have m: "iequals ''Who's there?'' ''Who's there?''"
    by (simp add: iequals_def)
  from knock_mismatch_reprompts [of ?s "''Who there?''" ?s1 ?s2 ?s3] r n a c
  have "knock_loop ?s = knock_loop ?s3" by blast
  moreover from knock_mismatch_reprompts [of ?s3 "''Who's there?''" ?s4] r3 m
  have "knock_loop ?s3 = (True, ?s4)" by blast
  ultimately show ?thesis using r n by simp
qed

text \<open>
  \<^bold>\<open>C4.\<close> When every catalog index is in \<open>told_jokes\<close>, \<open>play_joke\<close> returns
  \<open>False\<close>, reads no input and leaves \<open>told_jokes\<close> alone; what it sends is exactly the
  line \<^verbatim>\<open>I have no more jokes to tell.\<close> (and nothing when the connection refuses that
  send). \<open>handle_client\<close> then leaves its loop and closes the connection.
\<close>

theorem exhausted_catalog_ends_session:
  assumes "\<forall>i<length jokes. i \<in> told_jokes s"
  shows "fst (play_joke jokes s) = False \<and>
         inp (snd (play_joke jokes s)) = inp s \<and>
         told_jokes (snd (play_joke jokes s)) = told_jokes s \<and>
         (sendok s = [] \<or> hd (sendok s) \<longrightarrow>
            events (snd (play_joke jokes s)) =
              events s @ [Sent (''I have no more jokes to tell.'' @ [CHR 0x0A])]) \<and>
         (sendok s \<noteq> [] \<and> \<not> hd (sendok s) \<longrightarrow>
            events (snd (play_joke jokes s)) = events s) \<and>
         handle_client jokes s =
           (snd (play_joke jokes s))\<lparr>events := events (snd (play_joke jokes s)) @ [Closed]\<rparr>"
proof -
  from assms have e: "avail jokes s = []"
    by (simp add: avail_empty_iff)
  obtain ok s1 where a: "send_line s no_more_jokes = (ok, s1)"
    by (cases "send_line s no_more_jokes")
  have p: "play_joke jokes s = (False, s1)"
    using play_joke_exhausted [OF e] a by simp
  have l: "session_loop jokes s = s1"
    using p by (simp add: session_loop.simps [of jokes s])
  have ok: "ok \<longleftrightarrow> sendok s = [] \<or> hd (sendok s)"
    using a by (auto simp: send_line_def split: list.splits if_splits)
  have ev: "events s1 = events s @ (if ok then [Sent (''I have no more jokes to tell.'' @ [CHR 0x0A])] else [])"
    using send_line_events [OF a] by (simp add: protocol_lines)
  show ?thesis
    using p l ok ev send_line_frame [OF a]
    by (auto simp: handle_client_def)
qed

theorem exhausted_catalog_ends_session_witness:
  "avail demo_jokes ((line_session ''Who's there?'')\<lparr>told_jokes := {0, 1}\<rparr>) = [] \<and>
   sendok ((line_session ''Who's there?'')\<lparr>told_jokes := {0, 1}\<rparr>) = [] \<and>
   fst (play_joke demo_jokes ((line_session ''Who's there?'')\<lparr>told_jokes := {0, 1}\<rparr>)) = False \<and>
   inp (snd (play_joke demo_jokes ((line_session ''Who's there?'')\<lparr>told_jokes := {0, 1}\<rparr>))) =
     ''Who's there?'' \<and>
   events (snd (play_joke demo_jokes ((line_session ''Who's there?'')\<lparr>told_jokes := {0, 1}\<rparr>))) =
     [Sent (''I have no more jokes to tell.'' @ [CHR 0x0A])]"
proof -
  let ?s = "(line_session ''Who's there?'')\<lparr>told_jokes := {0, 1}\<rparr>"
  have h: "\<forall>i<length demo_jokes. i \<in> told_jokes ?s"
    by (auto simp: demo_jokes_def line_session_def)
  have g: "sendok ?s = []" "inp ?s = ''Who's there?''" "events ?s = []"
    by (simp_all add: line_session_def)
  from exhausted_catalog_ends_session [OF h] h g show ?thesis
    by (simp add: avail_empty_iff)
qed

text \<open>
  \<^bold>\<open>C5.\<close> After the prompt \<^verbatim>\<open>Would you like to listen to another? (Y/N) <input>\<close> has
  been sent and a reply read: a reply matching "Y" or "yes" leaves the inner loop with
  \<open>cont\<close> true, and the session loop goes round again (it starts with \<open>play_joke\<close>); a
  reply matching "N" or "no" leaves it with \<open>cont\<close> false, nothing further is sent and
  \<open>handle_client\<close> closes the connection; any other reply makes the server send the one
  line \<^verbatim>\<open>Please reply with Y or N.\<close> and go round the inner loop again, whose next send
  is the same prompt, \<open>told_jokes\<close> and the generator being unchanged (when the reminder
  cannot be sent, the session ends).
\<close>

theorem continuation_reply:
  assumes "send_line s another_prompt = (True, s1)" and "recv_line s1 = (True, choice, s2)"
  shows "(iequals choice ''Y'' \<or> iequals choice ''yes'' \<longrightarrow> ask_another s = (True, s2)) \<and>
         (iequals choice ''N'' \<or> iequals choice ''no'' \<longrightarrow> ask_another s = (False, s2)) \<and>
         (\<not> (iequals choice ''Y'' \<or> iequals choice ''yes'' \<or>
             iequals choice ''N'' \<or> iequals choice ''no'') \<longrightarrow>
            (send_line s2 reply_reminder = (True, s3) \<longrightarrow>
               ask_another s = ask_another s3 \<and>
               events s3 = events s @
                 [Sent (''Would you like to listen to another? (Y/N) <input>'' @ [CHR 0x0A]),
                  Sent (''Please reply with Y or N.'' @ [CHR 0x0A])] \<and>
               inp s3 = inp s2 \<and> told_jokes s3 = told_jokes s \<and> rng s3 = rng s \<and>
               (send_line s3 another_prompt = (True, s4) \<longrightarrow>
                  events s4 = events s @
                    [Sent (''Would you like to listen to another? (Y/N) <input>'' @ [CHR 0x0A]),
                     Sent (''Please reply with Y or N.'' @ [CHR 0x0A]),
                     Sent (''Would you like to listen to another? (Y/N) <input>'' @ [CHR 0x0A])])) \<and>
            (send_line s2 reply_reminder = (False, s3) \<longrightarrow> ask_another s = (False, s3))) \<and>
         events s2 = events s @
           [Sent (''Would you like to listen to another? (Y/N) <input>'' @ [CHR 0x0A])] \<and>
         told_jokes s2 = told_jokes s \<and> rng s2 = rng s \<and>
         (play_joke jokes s0 = (True, s) \<longrightarrow>
            (ask_another s = (True, s') \<longrightarrow> session_loop jokes s0 = session_loop jokes s') \<and>
            (ask_another s = (False, s') \<longrightarrow>
               session_loop jokes s0 = s' \<and>
               handle_client jokes s0 = s'\<lparr>events := events s' @ [Closed]\<rparr>))"
proof -
  note f1 = send_line_frame [OF assms(1)] send_line_events [OF assms(1)]
  note f2 = recv_line_frame [OF assms(2)]
  have yes: "ask_another s = (True, s2)" if "iequals choice ''Y'' \<or> iequals choice ''yes''"
  proof -
    obtain ok3 s3' where c: "send_line s2 reply_reminder = (ok3, s3')"
      by (cases "send_line s2 reply_reminder")
    from ask_another_step [OF assms c] that yes_excludes_no [OF that] show ?thesis by simp
  qed
  have no: "ask_another s = (False, s2)" if "iequals choice ''N'' \<or> iequals choice ''no''"
  proof -
    obtain ok3 s3' where c: "send_line s2 reply_reminder = (ok3, s3')"
      by (cases "send_line s2 reply_reminder")
    from ask_another_step [OF assms c] that show ?thesis by simp
  qed
  have other: "ask_another s = (if ok3 then ask_another s3 else (False, s3))"
    if "\<not> (iequals choice ''Y'' \<or> iequals choice ''yes'' \<or>
             iequals choice ''N'' \<or> iequals choice ''no'')"
      "send_line s2 reply_reminder = (ok3, s3)" for ok3
    using ask_another_step [OF assms that(2)] that(1) by simp
  have other_state: "events s3 = events s @
                 [Sent (''Would you like to listen to another? (Y/N) <input>'' @ [CHR 0x0A]),
                  Sent (''Please reply with Y or N.'' @ [CHR 0x0A])] \<and>
               inp s3 = inp s2 \<and> told_jokes s3 = told_jokes s \<and> rng s3 = rng s"
    if "send_line s2 reply_reminder = (True, s3)"
    using send_line_frame [OF that] send_line_events [OF that] f1 f2
    by (simp add: protocol_lines)
  have again: "events s4 = events s @
                    [Sent (''Would you like to listen to another? (Y/N) <input>'' @ [CHR 0x0A]),
                     Sent (''Please reply with Y or N.'' @ [CHR 0x0A]),
                     Sent (''Would you like to listen to another? (Y/N) <input>'' @ [CHR 0x0A])]"
    if "send_line s2 reply_reminder = (True, s3)" "send_line s3 another_prompt = (True, s4)"
    using other_state [OF that(1)] send_line_events [OF that(2)]
    by (simp add: protocol_lines)
  have ev2: "events s2 = events s @
           [Sent (''Would you like to listen to another? (Y/N) <input>'' @ [CHR 0x0A])]"
    "told_jokes s2 = told_jokes s" "rng s2 = rng s"
    using f1 f2 by (simp_all add: protocol_lines)
  have loop: "(ask_another s = (True, s') \<longrightarrow> session_loop jokes s0 = session_loop jokes s') \<and>
            (ask_another s = (False, s') \<longrightarrow>
               session_loop jokes s0 = s' \<and>
               handle_client jokes s0 = s'\<lparr>events := events s' @ [Closed]\<rparr>)"
    if "play_joke jokes s0 = (True, s)"
  proof (intro conjI impI)
    assume "ask_another s = (True, s')"
    from session_loop_step [OF that this] show "session_loop jokes s0 = session_loop jokes s'"
      by simp
  next
    assume "ask_another s = (False, s')"
    from session_loop_step [OF that this] show "session_loop jokes s0 = s'"
      by simp
    then show "handle_client jokes s0 = s'\<lparr>events := events s' @ [Closed]\<rparr>"
      by (simp add: handle_client_def)
  qed
  from yes no other [of True] other [of False] other_state again ev2 loop show ?thesis
    by (intro conjI impI) simp_all
qed

theorem continuation_reply_witness:
  "send_line (line_session ('' yEs '' @ [LF])) another_prompt =
     (True, (line_session ('' yEs '' @ [LF]))\<lparr>events :=
        [Sent (''Would you like to listen to another? (Y/N) <input>'' @ [CHR 0x0A])]\<rparr>) \<and>
   recv_line ((line_session ('' yEs '' @ [LF]))\<lparr>events :=
        [Sent (''Would you like to listen to another? (Y/N) <input>'' @ [CHR 0x0A])]\<rparr>) =
     (True, '' yEs '', (line_session [])\<lparr>events :=
        [Sent (''Would you like to listen to another? (Y/N) <input>'' @ [CHR 0x0A])]\<rparr>) \<and>
   ask_another (line_session ('' yEs '' @ [LF])) =
     (True, (line_session [])\<lparr>events :=
        [Sent (''Would you like to listen to another? (Y/N) <input>'' @ [CHR 0x0A])]\<rparr>)"
proof -
  let ?p = "''Would you like to listen to another? (Y/N) <input>'' @ [CHR 0x0A]"
  let ?s = "line_session ('' yEs '' @ [LF])"
  let ?s1 = "?s\<lparr>events := [Sent ?p]\<rparr>"
  let ?s2 = "(line_session [])\<lparr>events := [Sent ?p]\<rparr>"
  have a: "send_line ?s another_prompt = (True, ?s1)"
    by (simp add: send_line_def line_session_def protocol_lines)
  have r: "recv_line ?s1 = (True, '' yEs '', ?s2)"
    by (simp add: recv_line_def line_session_def LF_def CR_def)
  have y: "iequals '' yEs '' ''Y'' \<or> iequals '' yEs '' ''yes''"
    by code_simp
  from continuation_reply [OF a r] y have "ask_another ?s = (True, ?s2)" by blast
  with a r show ?thesis by simp
qed

text \<open>
  \<^bold>\<open>C9.\<close> The number of recursive calls made during one call of \<open>play_joke\<close> is at
  most the number of catalog indices not yet told, hence at most the size of the catalog.
  There are at most as many restarts as selections, the selections are pairwise distinct
  indices that were untold at the start, and a restart happens only while a selected joke
  is current (\<open>dialogue_ok\<close>). With no untold index left, \<open>play_joke\<close> returns
  \<open>False\<close> without any restart.
\<close>

theorem restart_depth_bounded:
  "\<exists>ev. events (snd (play_joke jokes s)) = events s @ ev \<and>
        restarts ev \<le> length (avail jokes s) \<and>
        length (avail jokes s) \<le> length jokes \<and>
        restarts ev \<le> length (selections ev) \<and>
        distinct (selections ev) \<and>
        set (selections ev) \<subseteq> set (avail jokes s) \<and>
        dialogue_ok jokes None ev \<and>
        (avail jokes s = [] \<longrightarrow> \<not> fst (play_joke jokes s) \<and> restarts ev = 0)"
proof -
  obtain ok s1 where p: "play_joke jokes s = (ok, s1)"
    by (cases "play_joke jokes s")
  from play_joke_summary [OF p] obtain ev where ev:
    "events s1 = events s @ ev"
    "distinct (selections ev)"
    "set (selections ev) \<subseteq> set (avail jokes s)"
    "length (selections ev) \<le> length (avail jokes s)"
    "restarts ev \<le> length (selections ev)"
    "dialogue_ok jokes None ev"
    "avail jokes s = [] \<longrightarrow> \<not> ok \<and> restarts ev = 0 \<and> selections ev = []"
    by blast
  show ?thesis
    using p ev length_avail_le [of jokes s]
    by (intro exI [of _ ev]) simp
qed

theorem restart_depth_bounded_witness:
  "avail demo_jokes ((line_session [])\<lparr>told_jokes := {0, 1}\<rparr>) = [] \<and>
   \<not> fst (play_joke demo_jokes ((line_session [])\<lparr>told_jokes := {0, 1}\<rparr>))"
proof -
  have e: "avail demo_jokes ((line_session [])\<lparr>told_jokes := {0, 1}\<rparr>) = []"
    by code_simp
  from restart_depth_bounded [where s = "(line_session [])\<lparr>told_jokes := {0, 1}\<rparr>"
      and jokes = demo_jokes] e
  show ?thesis by auto
qed

section \<open>Accept loop and idle shutdown\<close>

text \<open>
  The accept loop of \<open>main\<close>. One \<open>tick\<close> is one iteration of
  \<^verbatim>\<open>while (server_running.load())\<close>: the value read from \<^verbatim>\<open>server_running\<close> at the head
  of the loop, and what \<^verbatim>\<open>poll(&pfd, 1, 1000)\<close> brought:
  \<^item> \<open>Accept_failed\<close>: the socket is readable and \<^verbatim>\<open>accept\<close> returns a negative value
    (\<^verbatim>\<open>continue\<close>);
  \<^item> \<open>Accepted created\<close>: a connection is accepted; \<open>created\<close> tells whether
    \<^verbatim>\<open>pthread_create\<close> succeeded;
  \<^item> \<open>Poll_timeout active now\<close>: \<^verbatim>\<open>pr == 0\<close>; \<open>active\<close> is the value read from the atomic
    counter \<^verbatim>\<open>active_clients\<close> and \<open>now\<close> the reading of \<^verbatim>\<open>steady_clock::now()\<close>, in
    nanoseconds;
  \<^item> \<open>Poll_other running'\<close>: any other outcome of \<^verbatim>\<open>poll\<close>; \<open>running'\<close> is the value read
    from \<^verbatim>\<open>server_running\<close> in that branch.

  The counter is shared with the client threads, so the loop is modelled by what it
  observes. \<open>idle_timer\<close> holds the two local variables of the idle bookkeeping.
  \<open>loop_step\<close> is the body of the loop: \<open>Inl\<close> the timer after the iteration,
  \<open>Inr\<close> the reason for leaving the loop (\<open>Idle_shutdown\<close>: the \<^verbatim>\<open>break\<close> after
  "No active clients for 10s"; \<open>Stop_requested\<close>: \<^verbatim>\<open>server_running\<close> was false).
  \<open>main_loop\<close> runs the loop over a finite list of ticks; \<open>None\<close> means that the loop
  is still running after them.
\<close>

datatype poll_result =
    Accept_failed
  | Accepted bool
  | Poll_timeout int int
  | Poll_other bool

datatype tick = Tick bool poll_result

record idle_timer =
  timer_running :: bool
  zero_since :: int

datatype loop_exit = Idle_shutdown | Stop_requested

definition seconds :: "int \<Rightarrow> int" where
  "seconds n = n * 1000000000"

fun loop_step :: "idle_timer \<Rightarrow> tick \<Rightarrow> idle_timer + loop_exit" where
  "loop_step t (Tick running pr) =
     (if \<not> running then Inr Stop_requested
      else case pr of
        Accept_failed \<Rightarrow> Inl t
      | Accepted created \<Rightarrow> Inl (t\<lparr>timer_running := False\<rparr>)
      | Poll_timeout active now \<Rightarrow>
          if active = 0 then
            (if \<not> timer_running t then Inl (t\<lparr>timer_running := True, zero_since := now\<rparr>)
             else if now - zero_since t \<ge> seconds 10 then Inr Idle_shutdown
             else Inl t)
          else Inl (t\<lparr>timer_running := False\<rparr>)
      | Poll_other running' \<Rightarrow> if \<not> running' then Inr Stop_requested else Inl t)"

fun main_loop :: "idle_timer \<Rightarrow> tick list \<Rightarrow> loop_exit option" where
  "main_loop t [] = None"
| "main_loop t (e # es) =
     (case loop_step t e of Inl t' \<Rightarrow> main_loop t' es | Inr x \<Rightarrow> Some x)"

text \<open>
  A tick is \<open>quiet\<close> when the loop goes on, no connection is accepted, and a timeout tick
  finds the counter at 0.
\<close>

fun quiet :: "tick \<Rightarrow> bool" where
  "quiet (Tick running (Accepted created)) = False"
| "quiet (Tick running (Poll_timeout active now)) = (running \<and> active = 0)"
| "quiet (Tick running Accept_failed) = running"
| "quiet (Tick running (Poll_other running')) = (running \<and> running')"

lemma loop_step_quiet:
  "loop_step t e = Inl t' \<Longrightarrow> timer_running t' \<Longrightarrow>
     (quiet e \<and> timer_running t \<and> zero_since t' = zero_since t) \<or>
     (\<exists>now. e = Tick True (Poll_timeout 0 now) \<and> \<not> timer_running t \<and> zero_since t' = now)"
  by (cases e; cases "case e of Tick r p \<Rightarrow> p") (auto split: if_splits)

lemma loop_step_idle:
  "loop_step t e = Inr Idle_shutdown \<Longrightarrow>
     timer_running t \<and> (\<exists>now. e = Tick True (Poll_timeout 0 now) \<and> seconds 10 \<le> now - zero_since t)"
  by (cases e; cases "case e of Tick r p \<Rightarrow> p") (auto split: if_splits)

lemma main_loop_idle_running:
  "main_loop t ticks = Some Idle_shutdown \<Longrightarrow> timer_running t \<Longrightarrow>
     (\<exists>mid t1 post. ticks = mid @ Tick True (Poll_timeout 0 t1) # post \<and>
         (\<forall>e\<in>set mid. quiet e) \<and> seconds 10 \<le> t1 - zero_since t) \<or>
     (\<exists>pre t0 mid t1 post.
         ticks = pre @ Tick True (Poll_timeout 0 t0) # mid @ Tick True (Poll_timeout 0 t1) # post \<and>
         (\<forall>e\<in>set mid. quiet e) \<and> seconds 10 \<le> t1 - t0)"
  and main_loop_idle_stopped:
  "main_loop t ticks = Some Idle_shutdown \<Longrightarrow> \<not> timer_running t \<Longrightarrow>
     (\<exists>pre t0 mid t1 post.
         ticks = pre @ Tick True (Poll_timeout 0 t0) # mid @ Tick True (Poll_timeout 0 t1) # post \<and>
         (\<forall>e\<in>set mid. quiet e) \<and> seconds 10 \<le> t1 - t0)"
proof (induction ticks arbitrary: t)
  case Nil
  {
    case 1
    then show ?case by simp
  next
    case 2
    then show ?case by simp
  }
next
  case (Cons e es)
  let ?B = "\<lambda>ticks. \<exists>pre t0 mid t1 post.
         ticks = pre @ Tick True (Poll_timeout 0 t0) # mid @ Tick True (Poll_timeout 0 t1) # post \<and>
         (\<forall>e\<in>set mid. quiet e) \<and> seconds 10 \<le> t1 - t0"
  let ?A = "\<lambda>z ticks. \<exists>mid t1 post. ticks = mid @ Tick True (Poll_timeout 0 t1) # post \<and>
         (\<forall>e\<in>set mid. quiet e) \<and> seconds 10 \<le> t1 - z"
  have liftB: "?B (e # es)" if "?B es"
  proof -
    from that obtain pre t0 mid t1 post where
      "es = pre @ Tick True (Poll_timeout 0 t0) # mid @ Tick True (Poll_timeout 0 t1) # post"
      "\<forall>e\<in>set mid. quiet e" "seconds 10 \<le> t1 - t0" by blast
    then show ?thesis
      by (intro exI [of _ "e # pre"] exI [of _ t0] exI [of _ mid] exI [of _ t1] exI [of _ post]) simp
  qed
  {
    case 1
    show ?case
    proof (cases "loop_step t e")
      case (Inr x)
      with 1 have "loop_step t e = Inr Idle_shutdown" by simp
      from loop_step_idle [OF this] obtain now where
        "e = Tick True (Poll_timeout 0 now)" "seconds 10 \<le> now - zero_since t" by blast
      then have "?A (zero_since t) (e # es)"
        by (intro exI [of _ "[]"] exI [of _ now] exI [of _ es]) simp
      then show ?thesis by (rule disjI1)
    next
      case (Inl t')
      with 1 have rest: "main_loop t' es = Some Idle_shutdown" by simp
      show ?thesis
      proof (cases "timer_running t'")
        case False
        from Cons.IH(2) [OF rest False] have "?B es" .
        then have "?B (e # es)" by (rule liftB)
        then show ?thesis by (rule disjI2)
      next
        case True
        from loop_step_quiet [OF Inl True] 1(2)
        have q: "quiet e" "zero_since t' = zero_since t" by auto
        from Cons.IH(1) [OF rest True] show ?thesis
        proof
          assume "?A (zero_since t') es"
          then obtain mid t1 post where m: "es = mid @ Tick True (Poll_timeout 0 t1) # post"
            "\<forall>e\<in>set mid. quiet e" "seconds 10 \<le> t1 - zero_since t'" by blast
          have "?A (zero_since t) (e # es)"
            using m q by (intro exI [of _ "e # mid"] exI [of _ t1] exI [of _ post]) simp
          then show ?thesis by (rule disjI1)
        next
          assume "?B es"
          then have "?B (e # es)" by (rule liftB)
          then show ?thesis by (rule disjI2)
        qed
      qed
    qed
  next
    case 2
    show ?case
    proof (cases "loop_step t e")
      case (Inr x)
      with 2 have "loop_step t e = Inr Idle_shutdown" by simp
      from loop_step_idle [OF this] 2(2) show ?thesis by simp
    next
      case (Inl t')
      with 2 have rest: "main_loop t' es = Some Idle_shutdown" by simp
      show ?thesis
      proof (cases "timer_running t'")
        case False
        from Cons.IH(2) [OF rest False] have "?B es" .
        then show ?thesis by (rule liftB)
      next
        case True
        from loop_step_quiet [OF Inl True] 2(2)
        obtain now where n: "e = Tick True (Poll_timeout 0 now)" "zero_since t' = now" by auto
        from Cons.IH(1) [OF rest True] show ?thesis
        proof
          assume "?A (zero_since t') es"
          then obtain mid t1 post where m: "es = mid @ Tick True (Poll_timeout 0 t1) # post"
            "\<forall>e\<in>set mid. quiet e" "seconds 10 \<le> t1 - zero_since t'" by blast
          show ?thesis
            using m n
            by (intro exI [of _ "[]"] exI [of _ now] exI [of _ mid] exI [of _ t1] exI [of _ post]) simp
        next
          assume "?B es"
          then show ?thesis by (rule liftB)
        qed
      qed
    qed
  }
qed

text \<open>
  \<open>stop_seen\<close>: the tick finds \<^verbatim>\<open>server_running\<close> cleared, at the head of the loop or
  in the last branch of its body.
\<close>

fun stop_seen :: "tick \<Rightarrow> bool" where
  "stop_seen (Tick running (Poll_other running')) = (\<not> running \<or> \<not> running')"
| "stop_seen (Tick running pr) = (\<not> running)"

lemma loop_step_stop: "loop_step t e = Inr Stop_requested \<Longrightarrow> stop_seen e"
  by (cases e; cases "case e of Tick r p \<Rightarrow> p") (auto split: if_splits)

lemma loop_step_continues: "loop_step t e = Inl t' \<Longrightarrow> \<not> stop_seen e"
  by (cases e; cases "case e of Tick r p \<Rightarrow> p") (auto split: if_splits)

lemma main_loop_stop:
  "main_loop t ticks = Some Stop_requested \<Longrightarrow>
     \<exists>pre e post. ticks = pre @ e # post \<and> stop_seen e \<and> list_all (\<lambda>e. \<not> stop_seen e) pre"
proof (induction ticks arbitrary: t)
  case Nil
  then show ?case by simp
next
  case (Cons e es)
  show ?case
  proof (cases "loop_step t e")
    case (Inr x)
    with Cons.prems have "loop_step t e = Inr Stop_requested" by simp
    then have "stop_seen e" by (rule loop_step_stop)
    then show ?thesis
      by (intro exI [of _ "[]"] exI [of _ e] exI [of _ es]) simp
  next
    case (Inl t')
    with Cons.prems have "main_loop t' es = Some Stop_requested" by simp
    from Cons.IH [OF this] obtain pre e' post where
      p: "es = pre @ e' # post" "stop_seen e'" "list_all (\<lambda>e. \<not> stop_seen e) pre"
      by blast
    from loop_step_continues [OF Inl] p show ?thesis
      by (intro exI [of _ "e # pre"] exI [of _ e'] exI [of _ post]) simp
  qed
qed

lemma main_loop_no_stop:
  "list_all (\<lambda>e. \<not> stop_seen e) ticks \<Longrightarrow> main_loop t ticks \<noteq> Some Stop_requested"
proof
  assume a: "list_all (\<lambda>e. \<not> stop_seen e) ticks" and "main_loop t ticks = Some Stop_requested"
  from main_loop_stop [OF this(2)] obtain pre e post where
    "ticks = pre @ e # post" "stop_seen e" by blast
  with a show False by simp
qed

text \<open>
  \<^bold>\<open>C6.\<close> The accept loop, started with the idle timer stopped, is left in one of two
  ways. Either a tick found \<^verbatim>\<open>server_running\<close> cleared (\<open>stop_seen\<close>: the shutdown
  signal), or the idle monitor broke out of it, and then the ticks contain two timeout
  ticks that both found the counter at 0 and whose clock readings are at least 10 seconds
  (\<open>10 * 1000000000\<close> nanoseconds) apart, with only quiet ticks between them: no accepted
  connection and no timeout tick that found the counter different from 0. So, as long as
  no tick sees the flag cleared, the loop is left only after such an idle period. A
  timeout tick that finds the counter different from 0 stops the timer, and so does an
  accepted connection; after an accepted connection an idle shutdown needs a full idle
  period among the later ticks.
\<close>

theorem idle_shutdown_after_grace_period:
  "(main_loop \<lparr>timer_running = False, zero_since = z\<rparr> ticks = Some x \<longrightarrow>
      (x = Idle_shutdown \<and>
       (\<exists>pre t0 mid t1 post.
          ticks = pre @ Tick True (Poll_timeout 0 t0) # mid @ Tick True (Poll_timeout 0 t1) # post \<and>
          (\<forall>e\<in>set mid. quiet e) \<and> 10 * 1000000000 \<le> t1 - t0)) \<or>
      (x = Stop_requested \<and> (\<exists>pre e post. ticks = pre @ e # post \<and> stop_seen e))) \<and>
   (list_all (\<lambda>e. \<not> stop_seen e) ticks \<and>
    main_loop \<lparr>timer_running = False, zero_since = z\<rparr> ticks = Some x \<longrightarrow>
      x = Idle_shutdown \<and>
      (\<exists>pre t0 mid t1 post.
          ticks = pre @ Tick True (Poll_timeout 0 t0) # mid @ Tick True (Poll_timeout 0 t1) # post \<and>
          (\<forall>e\<in>set mid. quiet e) \<and> 10 * 1000000000 \<le> t1 - t0)) \<and>
   (active \<noteq> 0 \<longrightarrow>
      loop_step t (Tick True (Poll_timeout active now)) = Inl (t\<lparr>timer_running := False\<rparr>)) \<and>
   loop_step t (Tick True (Accepted created)) = Inl (t\<lparr>timer_running := False\<rparr>) \<and>
   (main_loop t (Tick True (Accepted created) # later) = Some Idle_shutdown \<longrightarrow>
      (\<exists>pre t0 mid t1 post.
          later = pre @ Tick True (Poll_timeout 0 t0) # mid @ Tick True (Poll_timeout 0 t1) # post \<and>
          (\<forall>e\<in>set mid. quiet e) \<and> 10 * 1000000000 \<le> t1 - t0))"
proof -
  let ?idle = "\<lambda>ticks. \<exists>pre t0 mid t1 post.
          ticks = pre @ Tick True (Poll_timeout 0 t0) # mid @ Tick True (Poll_timeout 0 t1) # post \<and>
          (\<forall>e\<in>set mid. quiet e) \<and> 10 * 1000000000 \<le> t1 - t0"
  have sec: "seconds 10 = 10 * 1000000000" by (simp add: seconds_def)
  have idle: "?idle tk" if "main_loop t0 tk = Some Idle_shutdown" "\<not> timer_running t0" for t0 tk
    using main_loop_idle_stopped [OF that] by (simp only: sec)
  have A: "(x = Idle_shutdown \<and> ?idle ticks) \<or>
      (x = Stop_requested \<and> (\<exists>pre e post. ticks = pre @ e # post \<and> stop_seen e))"
    if m: "main_loop \<lparr>timer_running = False, zero_since = z\<rparr> ticks = Some x"
  proof (cases x)
    case Idle_shutdown
    with m idle [of "\<lparr>timer_running = False, zero_since = z\<rparr>" ticks] show ?thesis by simp
  next
    case Stop_requested
    with m main_loop_stop [of "\<lparr>timer_running = False, zero_since = z\<rparr>" ticks]
    have "\<exists>pre e post. ticks = pre @ e # post \<and> stop_seen e" by blast
    with Stop_requested show ?thesis by simp
  qed
  have B: "x = Idle_shutdown \<and> ?idle ticks"
    if "list_all (\<lambda>e. \<not> stop_seen e) ticks \<and>
        main_loop \<lparr>timer_running = False, zero_since = z\<rparr> ticks = Some x"
  proof -
    from that have q: "list_all (\<lambda>e. \<not> stop_seen e) ticks"
      and m: "main_loop \<lparr>timer_running = False, zero_since = z\<rparr> ticks = Some x" by simp_all
    from main_loop_no_stop [OF q] m have "x = Idle_shutdown" by (cases x) auto
    with m idle [of "\<lparr>timer_running = False, zero_since = z\<rparr>" ticks] show ?thesis by simp
  qed
  have C: "active \<noteq> 0 \<Longrightarrow>
      loop_step t (Tick True (Poll_timeout active now)) = Inl (t\<lparr>timer_running := False\<rparr>)"
    by simp
  have D: "loop_step t (Tick True (Accepted created)) = Inl (t\<lparr>timer_running := False\<rparr>)"
    by simp
  have E: "?idle later" if "main_loop t (Tick True (Accepted created) # later) = Some Idle_shutdown"
  proof -
    from that have "main_loop (t\<lparr>timer_running := False\<rparr>) later = Some Idle_shutdown"
      by simp
    then show ?thesis by (rule idle) simp
  qed
  from A B C D E show ?thesis
    by (intro conjI impI) blast+
qed

theorem idle_shutdown_after_grace_period_witness:
  "main_loop \<lparr>timer_running = False, zero_since = 0\<rparr>
     [Tick True (Poll_timeout 0 5), Tick True (Poll_timeout 0 (5 + 10 * 1000000000))] = Some Idle_shutdown \<and>
   (\<exists>pre t0 mid t1 post.
      [Tick True (Poll_timeout 0 5), Tick True (Poll_timeout 0 (5 + 10 * 1000000000))] =
        pre @ Tick True (Poll_timeout 0 t0) # mid @ Tick True (Poll_timeout 0 t1) # post \<and>
      list_all quiet mid \<and> 10 * 1000000000 \<le> t1 - t0) \<and>
   main_loop \<lparr>timer_running = False, zero_since = 0\<rparr>
     [Tick True (Poll_timeout 0 5), Tick True (Poll_timeout 0 (4 + 10 * 1000000000))] = None \<and>
   main_loop \<lparr>timer_running = False, zero_since = 0\<rparr>
     [Tick True (Poll_timeout 0 5), Tick True (Accepted True),
      Tick True (Poll_timeout 0 (5 + 10 * 1000000000))] = None \<and>
   loop_step \<lparr>timer_running = True, zero_since = 5\<rparr> (Tick True (Poll_timeout 1 7)) =
     Inl \<lparr>timer_running = False, zero_since = 5\<rparr>"
proof -
  let ?ticks = "[Tick True (Poll_timeout 0 5), Tick True (Poll_timeout 0 (5 + 10 * 1000000000))]"
  have a: "main_loop \<lparr>timer_running = False, zero_since = 0\<rparr> ?ticks = Some Idle_shutdown"
    by (simp add: seconds_def)
  have a': "main_loop \<lparr>timer_running = False, zero_since = 0\<rparr>
     [Tick True (Poll_timeout 0 5), Tick True (Poll_timeout 0 (4 + 10 * 1000000000))] = None"
    by (simp add: seconds_def)
  have b: "main_loop \<lparr>timer_running = False, zero_since = 0\<rparr>
     [Tick True (Poll_timeout 0 5), Tick True (Accepted True),
      Tick True (Poll_timeout 0 (5 + 10 * 1000000000))] = None"
    by (simp add: seconds_def)
  have q: "list_all (\<lambda>e. \<not> stop_seen e) ?ticks" by simp
  have c: "(1 :: int) \<noteq> 0" by simp
  note t = idle_shutdown_after_grace_period
    [where z = 0 and ticks = ?ticks and x = Idle_shutdown
      and active = 1 and now = 7 and t = "\<lparr>timer_running = True, zero_since = 5\<rparr>"]
  from t [THEN conjunct2, THEN conjunct1, THEN mp, OF conjI, OF q a]
  have d: "\<exists>pre t0 mid t1 post.
      ?ticks = pre @ Tick True (Poll_timeout 0 t0) # mid @ Tick True (Poll_timeout 0 t1) # post \<and>
      list_all quiet mid \<and> 10 * 1000000000 \<le> t1 - t0"
    by (simp only: list_all_iff simp_thms)
  from t [THEN conjunct2, THEN conjunct2, THEN conjunct1, THEN mp, OF c]
  have e: "loop_step \<lparr>timer_running = True, zero_since = 5\<rparr> (Tick True (Poll_timeout 1 7)) =
     Inl \<lparr>timer_running = False, zero_since = 5\<rparr>"
    by simp
  from a d a' b e show ?thesis by (intro conjI)
qed

text \<open>
  A shutdown signal ends the loop at once: with the flag found cleared after
  \<^verbatim>\<open>poll\<close> was woken, on the first tick; or at the head of the loop, one tick after
  the idle timer was started. In neither run is there an idle period of 10 seconds.
\<close>

theorem idle_shutdown_after_grace_period_counterexample:
  "main_loop \<lparr>timer_running = False, zero_since = 0\<rparr> [Tick True (Poll_other False)] =
     Some Stop_requested \<and>
   main_loop \<lparr>timer_running = False, zero_since = 0\<rparr>
     [Tick True (Poll_timeout 0 5), Tick False Accept_failed] = Some Stop_requested"
  by simp

end
